theory Spec2Isabelle
  imports Complex_Main
begin

section \<open>Task nodes and the object store\<close>

text \<open>
  The planner of \<^verbatim>\<open>src/orchestration/symbolic/planner.py\<close> works on objects of the
  classes \<^verbatim>\<open>ANDNode\<close>, \<^verbatim>\<open>ORNode\<close> and \<^verbatim>\<open>AtomicNode\<close>, all subclasses of
  \<^verbatim>\<open>TaskNode\<close>. The classes define neither \<^verbatim>\<open>__eq__\<close> nor \<^verbatim>\<open>__hash__\<close>, so
  membership in a list or a set is by object identity. An object is therefore an address
  into a store; the store is the list of all objects allocated so far, in the order of
  their construction. Costs and risks are Python numbers; they are modelled as reals, so
  comparisons and maxima are as in Python and the rounding of floating-point sums is left
  out.
\<close>

type_synonym addr = nat

datatype node_kind = ANDNode | ORNode | AtomicNode

record TaskNode =
  kind :: node_kind
  task_id :: string
  preconditions :: "addr list"
  resources :: "(string \<times> int) list"
  cost :: real
  risk :: real
  state :: string
  children :: "addr list"

type_synonym store = "TaskNode list"

type_synonym pool = "string \<rightharpoonup> int"

datatype error =
    PlanException string
  | CircularDependencyError string
  | ResourceConflictError string int int
  | AttributeError string
  | KeyError string
  | IndexError
  | TypeError

text \<open>
  \<^verbatim>\<open>TaskNode.__init__\<close>: the status starts as \<^verbatim>\<open>"PENDING"\<close> and the children list
  is empty. \<^verbatim>\<open>ResourceConflictError r q a\<close> stands for the message
  \<^verbatim>\<open>f"Insufficient {r}: {q}/{a}"\<close>.
\<close>

definition init_node ::
  "node_kind \<Rightarrow> string \<Rightarrow> addr list \<Rightarrow> (string \<times> int) list \<Rightarrow> real \<Rightarrow> real \<Rightarrow> TaskNode" where
  "init_node k i pre res c r =
     \<lparr>kind = k, task_id = i, preconditions = pre, resources = res, cost = c, risk = r,
      state = ''PENDING'', children = []\<rparr>"

text \<open>
  A Python reference always denotes a live object. So that every function below is total,
  an address past the end of the store reads as an atomic node without fields.
\<close>

definition deref :: "store \<Rightarrow> addr \<Rightarrow> TaskNode" where
  "deref h a = (if a < length h then h ! a else init_node AtomicNode [] [] [] 0 0)"

definition is_atomic :: "TaskNode \<Rightarrow> bool" where
  "is_atomic n = (kind n = AtomicNode)"

section \<open>Ancestry and the cycle guards\<close>

text \<open>
  \<^verbatim>\<open>get_ancestors\<close>: the \<^verbatim>\<open>for parent in current.preconditions\<close> loop, then the
  \<^verbatim>\<open>while stack\<close> loop. The Python list \<^verbatim>\<open>stack\<close> is kept as it is: \<^verbatim>\<open>pop()\<close>
  takes the last element and \<^verbatim>\<open>append\<close> adds at the end.
\<close>

fun visit_parents :: "addr list \<Rightarrow> addr set \<Rightarrow> addr list \<Rightarrow> addr set \<times> addr list" where
  "visit_parents [] ancestors stack = (ancestors, stack)"
| "visit_parents (parent # ps) ancestors stack =
     (if parent \<notin> ancestors
      then visit_parents ps (insert parent ancestors) (stack @ [parent])
      else visit_parents ps ancestors stack)"

lemma visit_parents_fst: "fst (visit_parents ps anc st) = anc \<union> set ps"
  by (induction ps arbitrary: anc st) auto

lemma visit_parents_set: "set (snd (visit_parents ps anc st)) = set st \<union> (set ps - anc)"
  by (induction ps arbitrary: anc st) auto

lemma visit_parents_same:
  "set ps \<subseteq> anc \<Longrightarrow> visit_parents ps anc st = (anc, st)"
  by (induction ps arbitrary: anc st) auto

definition all_preconditions :: "store \<Rightarrow> addr set" where
  "all_preconditions h = (\<Union>n \<in> set h. set (preconditions n))"

lemma finite_all_preconditions: "finite (all_preconditions h)"
  by (simp add: all_preconditions_def)

lemma preconditions_deref_subset: "set (preconditions (deref h a)) \<subseteq> all_preconditions h"
proof (cases "a < length h")
  case True
  then show ?thesis
    unfolding deref_def all_preconditions_def by (auto intro!: bexI [of _ "h ! a"])
next
  case False
  then show ?thesis by (simp add: deref_def init_node_def)
qed

function get_ancestors_loop :: "store \<Rightarrow> addr list \<Rightarrow> addr set \<Rightarrow> addr set" where
  "get_ancestors_loop h stack ancestors =
     (if stack = [] then ancestors
      else let r = visit_parents (preconditions (deref h (last stack))) ancestors (butlast stack)
           in get_ancestors_loop h (snd r) (fst r))"
  by pat_completeness auto
termination
proof (relation "measures [\<lambda>(h, stack, anc). card (all_preconditions h - anc),
                           \<lambda>(h, stack, anc). length stack]", goal_cases)
  case 1
  show ?case by simp
next
  case (2 h stack anc r)
  let ?ps = "preconditions (deref h (last stack))"
  show ?case
  proof (cases "set ?ps \<subseteq> anc")
    case True
    with 2 show ?thesis by (simp add: visit_parents_same)
  next
    case False
    have "all_preconditions h - (anc \<union> set ?ps) \<subset> all_preconditions h - anc"
      using False preconditions_deref_subset [of h "last stack"] by auto
    then have "card (all_preconditions h - (anc \<union> set ?ps)) < card (all_preconditions h - anc)"
      by (intro psubset_card_mono) (simp_all add: finite_all_preconditions)
    with 2 show ?thesis by (simp add: visit_parents_fst)
  qed
qed

declare get_ancestors_loop.simps [simp del]

definition get_ancestors :: "store \<Rightarrow> addr \<Rightarrow> addr set" where
  "get_ancestors h self = get_ancestors_loop h [self] {}"

text \<open>The edges that \<^verbatim>\<open>get_ancestors\<close> walks: from a node to each of its preconditions.\<close>

definition precondition_rel :: "store \<Rightarrow> (addr \<times> addr) set" where
  "precondition_rel h = {(a, p). p \<in> set (preconditions (deref h a))}"

text \<open>
  \<^verbatim>\<open>add_child\<close> returns the outcome of the call together with the store after it.
\<close>

definition add_child :: "store \<Rightarrow> addr \<Rightarrow> addr \<Rightarrow> (error + unit) \<times> store" where
  "add_child h self node =
     (if node \<in> get_ancestors h self
      then (Inl (CircularDependencyError
                  (''Circular reference detected adding '' @ task_id (deref h node)
                     @ '' to '' @ task_id (deref h self))), h)
      else (Inr (), h[self := (deref h self)\<lparr>children := children (deref h self) @ [node]\<rparr>]))"

text \<open>
  \<^verbatim>\<open>validate_dag\<close>: the stack holds pairs of a node and the set of nodes on the path
  that led to it.
\<close>

definition all_children :: "store \<Rightarrow> addr set" where
  "all_children h = (\<Union>n \<in> set h. set (children n))"

lemma children_deref_subset: "set (children (deref h a)) \<subseteq> all_children h"
proof (cases "a < length h")
  case True
  then show ?thesis
    unfolding deref_def all_children_def by (auto intro!: bexI [of _ "h ! a"])
next
  case False
  then show ?thesis by (simp add: deref_def init_node_def)
qed

function validate_dag_loop :: "store \<Rightarrow> (addr \<times> addr set) list \<Rightarrow> addr set \<Rightarrow> error + unit" where
  "validate_dag_loop h stack visited =
     (if stack = [] then Inr ()
      else let node = fst (last stack); path = snd (last stack) in
        if node \<in> path
        then Inl (CircularDependencyError (''Cycle detected at '' @ task_id (deref h node)))
        else if node \<notin> visited
        then validate_dag_loop h
               (butlast stack @ map (\<lambda>child. (child, insert node path)) (children (deref h node)))
               (insert node visited)
        else validate_dag_loop h (butlast stack) visited)"
  by pat_completeness auto
termination
proof (relation "measures [\<lambda>(h, stack, visited). card ((fst ` set stack \<union> all_children h) - visited),
                           \<lambda>(h, stack, visited). length stack]", goal_cases)
  case 1
  show ?case by simp
next
  case (2 h stack visited node path)
  let ?new = "butlast stack @ map (\<lambda>child. (child, insert node path)) (children (deref h node))"
  have fin: "finite ((fst ` set stack \<union> all_children h) - visited)"
    by (simp add: all_children_def)
  have "node \<in> fst ` set stack" using 2 by (metis imageI last_in_set)
  moreover have "fst ` set ?new \<subseteq> fst ` set stack \<union> all_children h"
    using children_deref_subset [of h node] by (auto dest: in_set_butlastD)
  ultimately have "(fst ` set ?new \<union> all_children h) - insert node visited
      \<subset> (fst ` set stack \<union> all_children h) - visited"
    using 2 by auto
  then have "card ((fst ` set ?new \<union> all_children h) - insert node visited)
      < card ((fst ` set stack \<union> all_children h) - visited)"
    using fin by (rule psubset_card_mono [rotated])
  then show ?case by simp
next
  case (3 h stack visited node path)
  have fin: "finite ((fst ` set stack \<union> all_children h) - visited)"
    by (simp add: all_children_def)
  have "(fst ` set (butlast stack) \<union> all_children h) - visited
      \<subseteq> (fst ` set stack \<union> all_children h) - visited"
    by (auto dest: in_set_butlastD)
  then have "card ((fst ` set (butlast stack) \<union> all_children h) - visited)
      \<le> card ((fst ` set stack \<union> all_children h) - visited)"
    using fin by (rule card_mono [rotated])
  with 3 show ?case by auto
qed

declare validate_dag_loop.simps [simp del]

definition validate_dag :: "store \<Rightarrow> addr \<Rightarrow> error + unit" where
  "validate_dag h self = validate_dag_loop h [(self, {})] {}"

section \<open>Scoring one option\<close>

record PlanningResult =
  sequence :: "addr list"
  resource_usage :: "string \<rightharpoonup> int"
  cost :: real
  risk_factor :: real

text \<open>\<^verbatim>\<open>d.get(k, default)\<close> on a dictionary.\<close>

definition dict_get :: "('k \<rightharpoonup> 'v) \<Rightarrow> 'k \<Rightarrow> 'v \<Rightarrow> 'v" where
  "dict_get d k dflt = (case d k of None \<Rightarrow> dflt | Some v \<Rightarrow> v)"

text \<open>
  The inner loop of \<^verbatim>\<open>_evaluate_option\<close>, over \<^verbatim>\<open>node.resources.items()\<close>. The test
  reads the pool with \<^verbatim>\<open>get(res, 0)\<close>; the message of the exception reads it with
  \<^verbatim>\<open>self.resource_pool[res]\<close>, which raises \<^verbatim>\<open>KeyError\<close> for a missing key before
  the \<^verbatim>\<open>ResourceConflictError\<close> is built.
\<close>

fun add_resources :: "pool \<Rightarrow> (string \<times> int) list \<Rightarrow> (string \<rightharpoonup> int) \<Rightarrow> error + (string \<rightharpoonup> int)" where
  "add_resources resource_pool [] required_resources = Inr required_resources"
| "add_resources resource_pool ((res, amount) # rest) required_resources =
     (let required = dict_get required_resources res 0 + amount in
      if required > dict_get resource_pool res 0
      then (case resource_pool res of
              None \<Rightarrow> Inl (KeyError res)
            | Some available \<Rightarrow> Inl (ResourceConflictError res required available))
      else add_resources resource_pool rest (required_resources(res \<mapsto> required)))"

fun evaluate_loop ::
  "store \<Rightarrow> pool \<Rightarrow> addr list \<Rightarrow> (string \<rightharpoonup> int) \<Rightarrow> real \<Rightarrow> real
     \<Rightarrow> error + ((string \<rightharpoonup> int) \<times> real \<times> real)" where
  "evaluate_loop h resource_pool [] required_resources total_cost total_risk =
     Inr (required_resources, total_cost, total_risk)"
| "evaluate_loop h resource_pool (node # rest) required_resources total_cost total_risk =
     (if state (deref h node) \<noteq> ''PENDING''
      then evaluate_loop h resource_pool rest required_resources total_cost total_risk
      else case add_resources resource_pool (resources (deref h node)) required_resources of
             Inl e \<Rightarrow> Inl e
           | Inr required' \<Rightarrow>
               evaluate_loop h resource_pool rest required'
                 (total_cost + TaskNode.cost (deref h node))
                 (max total_risk (risk (deref h node))))"

definition evaluate_option :: "store \<Rightarrow> pool \<Rightarrow> addr list \<Rightarrow> error + PlanningResult" where
  "evaluate_option h resource_pool nodes =
     (case evaluate_loop h resource_pool nodes Map.empty 0 0 of
        Inl e \<Rightarrow> Inl e
      | Inr (required_resources, total_cost, total_risk) \<Rightarrow>
          Inr \<lparr>sequence = nodes, resource_usage = required_resources,
               cost = total_cost, risk_factor = total_risk\<rparr>)"

text \<open>
  What the loop sums over: the nodes of the option whose status is \<^verbatim>\<open>"PENDING"\<close>, the
  resource items of these nodes in the order of the iteration, and the total amount that
  a list of items holds for one resource.
\<close>

definition pending :: "store \<Rightarrow> addr list \<Rightarrow> addr list" where
  "pending h nodes = filter (\<lambda>a. state (deref h a) = ''PENDING'') nodes"

definition required_items :: "store \<Rightarrow> addr list \<Rightarrow> (string \<times> int) list" where
  "required_items h nodes = concat (map (\<lambda>a. resources (deref h a)) (pending h nodes))"

definition amount_of :: "string \<Rightarrow> (string \<times> int) list \<Rightarrow> int" where
  "amount_of k items = sum_list (map snd (filter (\<lambda>x. fst x = k) items))"

section \<open>Decomposition\<close>

text \<open>
  Both \<^verbatim>\<open>decompose\<close> methods call \<^verbatim>\<open>child.validate_resources(available_resources)\<close>
  and catch \<^verbatim>\<open>ResourceConflictError\<close> only. The method is looked up on the child when
  the call is made, so it is a parameter of the model: \<open>None\<close> when the child has no such
  attribute, and \<open>Some check\<close> for a method that returns when \<open>check\<close> holds and raises
  \<^verbatim>\<open>ResourceConflictError\<close> when it does not.
\<close>

type_synonym feasibility = "TaskNode \<Rightarrow> pool \<Rightarrow> bool"

text \<open>
  The classes of \<^verbatim>\<open>planner.py\<close> define \<^verbatim>\<open>__init__\<close>, \<^verbatim>\<open>is_atomic\<close>, \<^verbatim>\<open>state\<close>,
  \<^verbatim>\<open>add_child\<close>, \<^verbatim>\<open>get_ancestors\<close>, \<^verbatim>\<open>validate_dag\<close> (\<^verbatim>\<open>TaskNode\<close>) and
  \<^verbatim>\<open>is_atomic\<close>, \<^verbatim>\<open>decompose\<close> (\<^verbatim>\<open>ANDNode\<close>, \<^verbatim>\<open>ORNode\<close>); \<^verbatim>\<open>AtomicNode\<close> defines
  \<^verbatim>\<open>is_atomic\<close> only. No class and no constructor gives a node the attribute
  \<^verbatim>\<open>validate_resources\<close>.
\<close>

definition TaskNode_validate_resources :: "feasibility option" where
  "TaskNode_validate_resources = None"

fun and_loop :: "feasibility option \<Rightarrow> store \<Rightarrow> pool \<Rightarrow> addr list \<Rightarrow> addr list \<Rightarrow> error + addr list" where
  "and_loop vr h available_resources [] options = Inr options"
| "and_loop vr h available_resources (child # rest) options =
     (case vr of
        None \<Rightarrow> Inl (AttributeError ''validate_resources'')
      | Some check \<Rightarrow>
          if check (deref h child) available_resources
          then and_loop vr h available_resources rest (options @ [child])
          else and_loop vr h available_resources rest options)"

fun or_loop ::
  "feasibility option \<Rightarrow> store \<Rightarrow> pool \<Rightarrow> addr list \<Rightarrow> addr list list \<Rightarrow> error + addr list list" where
  "or_loop vr h available_resources [] alternatives = Inr alternatives"
| "or_loop vr h available_resources (child # rest) alternatives =
     (case vr of
        None \<Rightarrow> Inl (AttributeError ''validate_resources'')
      | Some check \<Rightarrow>
          if check (deref h child) available_resources
          then or_loop vr h available_resources rest (alternatives @ [[child]])
          else or_loop vr h available_resources rest alternatives)"

text \<open>\<^verbatim>\<open>AtomicNode\<close> has no \<^verbatim>\<open>decompose\<close>; the search never calls it on one.\<close>

definition decompose :: "feasibility option \<Rightarrow> store \<Rightarrow> pool \<Rightarrow> addr \<Rightarrow> error + addr list list" where
  "decompose vr h available_resources self =
     (case kind (deref h self) of
        ANDNode \<Rightarrow>
          (case and_loop vr h available_resources (children (deref h self)) [] of
             Inl e \<Rightarrow> Inl e
           | Inr options \<Rightarrow> Inr (if options \<noteq> [] then [options] else []))
      | ORNode \<Rightarrow> or_loop vr h available_resources (children (deref h self)) []
      | AtomicNode \<Rightarrow> Inl (AttributeError ''decompose''))"

section \<open>The priority queue\<close>

text \<open>
  The queue is a \<^verbatim>\<open>heapq\<close> heap of tuples \<^verbatim>\<open>(cost, node)\<close>. Tuples compare by cost
  first; at equal cost they compare the nodes, first with \<^verbatim>\<open>==\<close> (identity) and then
  with \<^verbatim>\<open><\<close>, which \<^verbatim>\<open>TaskNode\<close> does not support. \<^verbatim>\<open>heappush\<close> and \<^verbatim>\<open>heappop\<close> are
  the functions of the standard library, with their helpers \<^verbatim>\<open>_siftdown\<close> and
  \<^verbatim>\<open>_siftup\<close>.
\<close>

type_synonym entry = "real \<times> addr"

definition entry_lt :: "entry \<Rightarrow> entry \<Rightarrow> error + bool" where
  "entry_lt x y =
     (if fst x \<noteq> fst y then Inr (fst x < fst y)
      else if snd x = snd y then Inr False
      else Inl TypeError)"

function siftdown_loop :: "entry list \<Rightarrow> entry \<Rightarrow> nat \<Rightarrow> nat \<Rightarrow> error + entry list" where
  "siftdown_loop heap newitem startpos pos =
     (if pos > startpos
      then let parentpos = (pos - 1) div 2; parent = heap ! parentpos in
        case entry_lt newitem parent of
          Inl e \<Rightarrow> Inl e
        | Inr lt \<Rightarrow>
            if lt then siftdown_loop (heap[pos := parent]) newitem startpos parentpos
            else Inr (heap[pos := newitem])
      else Inr (heap[pos := newitem]))"
  by pat_completeness auto
termination
  by (relation "measure (\<lambda>(heap, newitem, startpos, pos). pos)") auto

declare siftdown_loop.simps [simp del]

definition siftdown :: "entry list \<Rightarrow> nat \<Rightarrow> nat \<Rightarrow> error + entry list" where
  "siftdown heap startpos pos =
     (if pos < length heap then siftdown_loop heap (heap ! pos) startpos pos else Inl IndexError)"

function siftup_loop :: "entry list \<Rightarrow> nat \<Rightarrow> error + (entry list \<times> nat)" where
  "siftup_loop heap pos =
     (let childpos = 2 * pos + 1 in
      if childpos < length heap
      then let rightpos = childpos + 1 in
        case (if rightpos < length heap then entry_lt (heap ! childpos) (heap ! rightpos)
              else Inr True) of
          Inl e \<Rightarrow> Inl e
        | Inr lt \<Rightarrow>
            let c = (if lt then childpos else rightpos) in
            siftup_loop (heap[pos := heap ! c]) c
      else Inr (heap, pos))"
  by pat_completeness auto
termination
  by (relation "measure (\<lambda>(heap, pos). length heap - pos)") (auto split: if_splits)

declare siftup_loop.simps [simp del]

definition siftup :: "entry list \<Rightarrow> nat \<Rightarrow> error + entry list" where
  "siftup heap pos =
     (if pos < length heap
      then case siftup_loop heap pos of
             Inl e \<Rightarrow> Inl e
           | Inr (heap', pos') \<Rightarrow> siftdown (heap'[pos' := heap ! pos]) pos pos'
      else Inl IndexError)"

definition heappush :: "entry list \<Rightarrow> entry \<Rightarrow> error + entry list" where
  "heappush heap item = siftdown (heap @ [item]) 0 (length heap)"

definition heappop :: "entry list \<Rightarrow> error + (entry \<times> entry list)" where
  "heappop heap =
     (if heap = [] then Inl IndexError
      else let lastelt = last heap; heap' = butlast heap in
        if heap' \<noteq> []
        then case siftup (heap'[0 := lastelt]) 0 of
               Inl e \<Rightarrow> Inl e
             | Inr heap'' \<Rightarrow> Inr (heap' ! 0, heap'')
        else Inr (lastelt, heap'))"

section \<open>The search\<close>

record PlanningGraph =
  root :: addr
  resource_pool :: pool
  risk_threshold :: real
  cache :: "string \<rightharpoonup> PlanningResult"

definition init_graph :: "addr \<Rightarrow> pool \<Rightarrow> real \<Rightarrow> PlanningGraph" where
  "init_graph r p t = \<lparr>root = r, resource_pool = p, risk_threshold = t, cache = Map.empty\<rparr>"

text \<open>
  The \<^verbatim>\<open>for option in decompositions\<close> loop of \<^verbatim>\<open>_ao_star_search\<close>. It carries the
  heap and \<^verbatim>\<open>best_plan\<close>. A \<^verbatim>\<open>PlanningResult\<close> is always true in a condition, so
  \<^verbatim>\<open>not best_plan\<close> holds exactly for \<^verbatim>\<open>None\<close>.
\<close>

fun score_options ::
  "store \<Rightarrow> PlanningGraph \<Rightarrow> real \<Rightarrow> addr list list \<Rightarrow> entry list \<Rightarrow> PlanningResult option
     \<Rightarrow> error + (entry list \<times> PlanningResult option)" where
  "score_options h g current_cost [] heap best_plan = Inr (heap, best_plan)"
| "score_options h g current_cost (option # rest) heap best_plan =
     (case evaluate_option h (resource_pool g) option of
        Inl e \<Rightarrow>
          (case e of
             ResourceConflictError r q a \<Rightarrow> score_options h g current_cost rest heap best_plan
           | _ \<Rightarrow> Inl e)
      | Inr plan \<Rightarrow>
          if risk_factor plan > risk_threshold g
          then score_options h g current_cost rest heap best_plan
          else let total_cost = current_cost + PlanningResult.cost plan in
            if (case best_plan of None \<Rightarrow> True | Some b \<Rightarrow> total_cost < PlanningResult.cost b)
            then if option = [] then Inl IndexError
              else case heappush heap (total_cost, last option) of
                     Inl e \<Rightarrow> Inl e
                   | Inr heap' \<Rightarrow>
                       score_options h g current_cost rest heap'
                         (Some (plan\<lparr>cost := total_cost\<rparr>))
            else score_options h g current_cost rest heap best_plan)"

text \<open>
  The \<^verbatim>\<open>while heap\<close> loop. Nothing bounds the number of its rounds, so the result is an
  option: \<open>None\<close> is a run that does not return.
\<close>

partial_function (option) ao_loop ::
  "feasibility option \<Rightarrow> store \<Rightarrow> PlanningGraph \<Rightarrow> entry list \<Rightarrow> PlanningResult option
     \<Rightarrow> (error + PlanningResult option) option" where
  "ao_loop vr h g heap best_plan =
     (if heap = [] then Some (Inr best_plan)
      else case heappop heap of
        Inl e \<Rightarrow> Some (Inl e)
      | Inr (current, heap') \<Rightarrow>
          if is_atomic (deref h (snd current)) then ao_loop vr h g heap' best_plan
          else case decompose vr h (resource_pool g) (snd current) of
            Inl e \<Rightarrow> Some (Inl e)
          | Inr decompositions \<Rightarrow>
              (case score_options h g (fst current) decompositions heap' best_plan of
                 Inl e \<Rightarrow> Some (Inl e)
               | Inr (heap'', best_plan') \<Rightarrow> ao_loop vr h g heap'' best_plan'))"

declare ao_loop.simps [code]

definition ao_star_search ::
  "feasibility option \<Rightarrow> store \<Rightarrow> PlanningGraph \<Rightarrow> (error + PlanningResult) option" where
  "ao_star_search vr h g =
     (case heappush [] (0, root g) of
        Inl e \<Rightarrow> Some (Inl e)
      | Inr heap \<Rightarrow>
          (case ao_loop vr h g heap None of
             None \<Rightarrow> None
           | Some (Inl e) \<Rightarrow> Some (Inl e)
           | Some (Inr None) \<Rightarrow> Some (Inl (PlanException ''No valid plan found within constraints''))
           | Some (Inr (Some best_plan)) \<Rightarrow> Some (Inr best_plan)))"

text \<open>
  \<^verbatim>\<open>generate_plan\<close>: the handler of \<^verbatim>\<open>CircularDependencyError\<close> logs and re-raises.
\<close>

definition generate_plan ::
  "feasibility option \<Rightarrow> store \<Rightarrow> PlanningGraph \<Rightarrow> (error + PlanningResult) option" where
  "generate_plan vr h g =
     (case validate_dag h (root g) of
        Inl e \<Rightarrow> Some (Inl e)
      | Inr u \<Rightarrow> ao_star_search vr h g)"

section \<open>Concrete trees\<close>

text \<open>A caller's script of \<^verbatim>\<open>parent.add_child(child)\<close> calls, stopping at the first exception.\<close>

fun add_children :: "store \<Rightarrow> (addr \<times> addr) list \<Rightarrow> (error + unit) \<times> store" where
  "add_children h [] = (Inr (), h)"
| "add_children h ((parent, child) # es) =
     (case add_child h parent child of
        (Inl e, h') \<Rightarrow> (Inl e, h')
      | (Inr u, h') \<Rightarrow> add_children h' es)"

text \<open>
  Scenario A: the seven nodes in the order in which they are constructed, the six
  \<^verbatim>\<open>add_child\<close> calls, and the pool.
\<close>

definition scenario_nodes :: store where
  "scenario_nodes =
     [init_node ANDNode ''Mission'' [] [(''cpu'', 2)] 0 0,
      init_node ORNode ''AcquireData'' [] [(''memory'', 4096)] 0 0,
      init_node AtomicNode ''Sensor'' [] [(''cpu'', 1), (''memory'', 2048)] 50 0.2,
      init_node AtomicNode ''API'' [] [(''cpu'', 2), (''memory'', 1024)] 30 0.4,
      init_node ANDNode ''ProcessData'' [] [(''cpu'', 4), (''gpu'', 1)] 0 0,
      init_node AtomicNode ''Clean'' [] [(''memory'', 512)] 10 0,
      init_node AtomicNode ''Transform'' [] [(''cpu'', 2)] 20 0]"

definition scenario_edges :: "(addr \<times> addr) list" where
  "scenario_edges = [(0, 1), (1, 2), (1, 3), (0, 4), (4, 5), (4, 6)]"

definition scenario_tree :: store where
  "scenario_tree = snd (add_children scenario_nodes scenario_edges)"

definition scenario_pool :: pool where
  "scenario_pool = [''cpu'' \<mapsto> 8, ''memory'' \<mapsto> 16384, ''gpu'' \<mapsto> 1]"

text \<open>Two fresh nodes, each made a child of the other.\<close>

definition two_nodes :: store where
  "two_nodes = [init_node ANDNode ''a'' [] [] 0 0, init_node ANDNode ''b'' [] [] 0 0]"

definition two_cycle :: store where
  "two_cycle = snd (add_children two_nodes [(0, 1), (1, 0)])"

text \<open>A chain of preconditions: \<^verbatim>\<open>c\<close> names \<^verbatim>\<open>p\<close>, and \<^verbatim>\<open>p\<close> names \<^verbatim>\<open>g\<close>.\<close>

definition chain :: store where
  "chain = [init_node ANDNode ''g'' [] [] 0 0, init_node ANDNode ''p'' [0] [] 0 0,
            init_node AtomicNode ''c'' [1] [] 0 0]"

text \<open>
  Modelled from the spec: \<^verbatim>\<open>validate_resources\<close>, which \<^verbatim>\<open>decompose\<close> calls and no
  class defines. The spec says only that a child is "individually resource-feasible
  against the pool": each amount the node itself requires is within the capacity of the
  pool, a missing resource counting as capacity 0.
\<close>

definition within_pool :: feasibility where
  "within_pool n p = list_all (\<lambda>(r, a). a \<le> dict_get p r 0) (resources n)"

text \<open>One pending task that needs a resource the pool does not list.\<close>

definition disk_task :: store where
  "disk_task = [init_node AtomicNode ''t'' [] [(''disk'', 1)] 0 0]"

definition cpu_pool :: pool where
  "cpu_pool = [''cpu'' \<mapsto> 8]"

text \<open>Two pending tasks: the first asks for more cpu than the pool has, the second for disk.\<close>

definition hungry :: store where
  "hungry = [init_node AtomicNode ''big'' [] [(''cpu'', 100)] 0 0,
             init_node AtomicNode ''t'' [] [(''disk'', 1)] 0 0]"

text \<open>A first task with a negative amount of disk, then the task that asks for disk.\<close>

definition refund :: store where
  "refund = [init_node AtomicNode ''credit'' [] [(''disk'', - 5)] 0 0,
             init_node AtomicNode ''t'' [] [(''disk'', 1)] 0 0]"

text \<open>The same with a first task that fits.\<close>

definition thrifty :: store where
  "thrifty = [init_node AtomicNode ''small'' [] [(''cpu'', 1)] 0 0,
              init_node AtomicNode ''t'' [] [(''disk'', 1)] 0 0]"

text \<open>The task that asks for disk first, then one that asks for more cpu than the pool has.\<close>

definition late :: store where
  "late = [init_node AtomicNode ''t'' [] [(''disk'', 1)] 0 0,
           init_node AtomicNode ''big'' [] [(''cpu'', 100)] 0 0]"

text \<open>
  Scenario C in small: an \<^verbatim>\<open>ORNode\<close> offering a cheap task of risk 0.9 and a dearer one
  of risk 0.3, and the plan that the search returns for it under a ceiling of 0.7.
\<close>

definition choice :: store where
  "choice = snd (add_children
     [init_node ORNode ''pick'' [] [] 0 0,
      init_node AtomicNode ''risky'' [] [(''cpu'', 1)] 1 0.9,
      init_node AtomicNode ''safe'' [] [(''cpu'', 2)] 5 0.3] [(0, 1), (0, 2)])"

definition choice_plan :: PlanningResult where
  "choice_plan = \<lparr>sequence = [2], resource_usage = [''cpu'' \<mapsto> 2], cost = 5, risk_factor = 0.3\<rparr>"




text \<open>
  An \<^verbatim>\<open>ANDNode\<close> whose two children fit a pool of 8 cpu one by one but not together.
\<close>

definition crowded :: store where
  "crowded = snd (add_children
     [init_node ANDNode ''both'' [] [] 0 0,
      init_node AtomicNode ''x'' [] [(''cpu'', 5)] 1 0,
      init_node AtomicNode ''y'' [] [(''cpu'', 5)] 1 0] [(0, 1), (0, 2)])"

text \<open>A \<^verbatim>\<open>PlanningGraph\<close> whose \<^verbatim>\<open>_cache\<close> is not empty.\<close>

definition warm_graph :: PlanningGraph where
  "warm_graph = (init_graph 0 cpu_pool 0.7)\<lparr>cache := [''pick'' \<mapsto> choice_plan]\<rparr>"

text \<open>
  The exceptions that are not planner exceptions: they are built-in exceptions of Python,
  which no handler of \<^verbatim>\<open>planner.py\<close> catches.
\<close>

definition builtin_error :: "error \<Rightarrow> bool" where
  "builtin_error e =
     (case e of
        AttributeError k \<Rightarrow> True
      | KeyError k \<Rightarrow> True
      | IndexError \<Rightarrow> True
      | TypeError \<Rightarrow> True
      | _ \<Rightarrow> False)"

text \<open>
  The two exceptions of the resource test: \<^verbatim>\<open>KeyError\<close> for a resource that is not a
  key of the pool, \<^verbatim>\<open>ResourceConflictError\<close> for a key of the pool whose capacity is
  exceeded.
\<close>

definition resource_error :: "pool \<Rightarrow> error \<Rightarrow> bool" where
  "resource_error p e =
     (case e of
        KeyError r \<Rightarrow> p r = None
      | ResourceConflictError r q a \<Rightarrow> p r = Some a \<and> a < q
      | _ \<Rightarrow> False)"


section \<open>Scenario A\<close>

lemma scenario_tree_built: "fst (add_children scenario_nodes scenario_edges) = Inr ()"
  by (simp add: scenario_nodes_def scenario_edges_def add_child_def get_ancestors_def
      get_ancestors_loop.simps deref_def init_node_def)

lemma scenario_tree_eq:
  "scenario_tree =
     [\<lparr>kind = ANDNode, task_id = ''Mission'', preconditions = [], resources = [(''cpu'', 2)],
       cost = 0, risk = 0, state = ''PENDING'', children = [1, 4]\<rparr>,
      \<lparr>kind = ORNode, task_id = ''AcquireData'', preconditions = [],
       resources = [(''memory'', 4096)], cost = 0, risk = 0, state = ''PENDING'',
       children = [2, 3]\<rparr>,
      init_node AtomicNode ''Sensor'' [] [(''cpu'', 1), (''memory'', 2048)] 50 0.2,
      init_node AtomicNode ''API'' [] [(''cpu'', 2), (''memory'', 1024)] 30 0.4,
      \<lparr>kind = ANDNode, task_id = ''ProcessData'', preconditions = [],
       resources = [(''cpu'', 4), (''gpu'', 1)], cost = 0, risk = 0, state = ''PENDING'',
       children = [5, 6]\<rparr>,
      init_node AtomicNode ''Clean'' [] [(''memory'', 512)] 10 0,
      init_node AtomicNode ''Transform'' [] [(''cpu'', 2)] 20 0]"
  by (simp add: scenario_tree_def scenario_nodes_def scenario_edges_def add_child_def
      get_ancestors_def get_ancestors_loop.simps deref_def init_node_def)

lemma scenario_tree_acyclic: "validate_dag scenario_tree 0 = Inr ()"
  by (simp add: scenario_tree_eq validate_dag_def validate_dag_loop.simps deref_def
      init_node_def)

text \<open>
  C1. Scenario A asks for a successful plan. On the classes of the repository the run
  does not produce one: the tree is built by \<^verbatim>\<open>add_child\<close> without an exception and
  passes \<^verbatim>\<open>validate_dag\<close>, and the search then stops in the first call of
  \<^verbatim>\<open>decompose\<close>, on the root, with the \<^verbatim>\<open>AttributeError\<close> of the missing method
  \<^verbatim>\<open>validate_resources\<close>.
\<close>

theorem scenario_A_generate_plan:
  "fst (add_children scenario_nodes scenario_edges) = Inr () \<and>
   validate_dag scenario_tree 0 = Inr () \<and>
   generate_plan TaskNode_validate_resources scenario_tree (init_graph 0 scenario_pool 0.7)
     = Some (Inl (AttributeError ''validate_resources''))"
proof -
  let ?g = "init_graph 0 scenario_pool 0.7"
  have dag: "validate_dag scenario_tree (root ?g) = Inr ()"
    by (simp add: init_graph_def scenario_tree_acyclic)
  have "ao_star_search TaskNode_validate_resources scenario_tree ?g
          = Some (Inl (AttributeError ''validate_resources''))"
    by (simp add: ao_star_search_def heappush_def siftdown_def siftdown_loop.simps
        ao_loop.simps heappop_def init_graph_def is_atomic_def decompose_def scenario_tree_eq
        deref_def TaskNode_validate_resources_def)
  with dag show ?thesis
    by (simp add: generate_plan_def scenario_tree_built scenario_tree_acyclic)
qed

text \<open>
  With \<^verbatim>\<open>validate_resources\<close> supplied as \<open>within_pool\<close> the same run returns the
  first option of the root, \<^verbatim>\<open>[AcquireData, ProcessData]\<close>, at cost 0: no later option
  is strictly cheaper, and no leaf is ever part of the plan.
\<close>

lemma scenario_A_with_method:
  "generate_plan (Some within_pool) scenario_tree (init_graph 0 scenario_pool 0.7)
     = Some (Inr \<lparr>sequence = [1, 4],
                  resource_usage = [''memory'' \<mapsto> 4096, ''cpu'' \<mapsto> 4, ''gpu'' \<mapsto> 1],
                  cost = 0, risk_factor = 0\<rparr>)"
proof -
  let ?g = "init_graph 0 scenario_pool 0.7"
  have dag: "validate_dag scenario_tree (root ?g) = Inr ()"
    by (simp add: init_graph_def scenario_tree_acyclic)
  have "ao_star_search (Some within_pool) scenario_tree ?g
      = Some (Inr \<lparr>sequence = [1, 4],
                  resource_usage = [''memory'' \<mapsto> 4096, ''cpu'' \<mapsto> 4, ''gpu'' \<mapsto> 1],
                  cost = 0, risk_factor = 0\<rparr>)"
    by (simp add: ao_star_search_def heappush_def siftdown_def siftdown_loop.simps
        ao_loop.simps heappop_def init_graph_def is_atomic_def decompose_def scenario_tree_eq
        deref_def init_node_def within_pool_def dict_get_def scenario_pool_def
        evaluate_option_def)
  with dag show ?thesis by (simp add: generate_plan_def)
qed

section \<open>The two cycle guards\<close>

text \<open>
  C3. The claim is that a tree built with \<^verbatim>\<open>add_child\<close> alone always passes
  \<^verbatim>\<open>validate_dag\<close>. Two fresh nodes \<^verbatim>\<open>a\<close> and \<^verbatim>\<open>b\<close> show otherwise:
  \<^verbatim>\<open>a.add_child(b)\<close> and \<^verbatim>\<open>b.add_child(a)\<close> both return, because \<^verbatim>\<open>add_child\<close>
  looks for the new child among the preconditions and never records a parent there, and
  \<^verbatim>\<open>a.validate_dag()\<close> then raises \<^verbatim>\<open>CircularDependencyError\<close>.
\<close>

theorem add_child_builds_cycle:
  "fst (add_children two_nodes [(0, 1), (1, 0)]) = Inr () \<and>
   validate_dag two_cycle 0 = Inl (CircularDependencyError ''Cycle detected at a'')"
  by (simp add: two_cycle_def two_nodes_def add_child_def get_ancestors_def
      get_ancestors_loop.simps validate_dag_def validate_dag_loop.simps deref_def init_node_def)

text \<open>
  \<^verbatim>\<open>get_ancestors\<close> returns exactly the nodes reachable from \<^verbatim>\<open>self\<close> along one or
  more precondition edges.
\<close>

lemma get_ancestors_loop_mono: "anc \<subseteq> get_ancestors_loop h stack anc"
proof (induction h stack anc rule: get_ancestors_loop.induct)
  case (1 h stack anc)
  show ?case
  proof (cases "stack = []")
    case True
    then show ?thesis by (simp add: get_ancestors_loop.simps)
  next
    case False
    let ?r = "visit_parents (preconditions (deref h (last stack))) anc (butlast stack)"
    have "fst ?r \<subseteq> get_ancestors_loop h (snd ?r) (fst ?r)"
      using 1 [OF False refl] .
    moreover have "anc \<subseteq> fst ?r" by (simp add: visit_parents_fst)
    ultimately have "anc \<subseteq> get_ancestors_loop h (snd ?r) (fst ?r)" by blast
    then show ?thesis using False by (simp add: get_ancestors_loop.simps [of h stack anc] Let_def)
  qed
qed

lemma get_ancestors_loop_sound:
  "get_ancestors_loop h stack anc \<subseteq> anc \<union> (precondition_rel h)\<^sup>+ `` set stack"
proof (induction h stack anc rule: get_ancestors_loop.induct)
  case (1 h stack anc)
  show ?case
  proof (cases "stack = []")
    case True
    then show ?thesis by (simp add: get_ancestors_loop.simps)
  next
    case False
    let ?R = "precondition_rel h"
    let ?ps = "preconditions (deref h (last stack))"
    let ?r = "visit_parents ?ps anc (butlast stack)"
    have ih: "get_ancestors_loop h (snd ?r) (fst ?r) \<subseteq> fst ?r \<union> ?R\<^sup>+ `` set (snd ?r)"
      using 1 [OF False refl] .
    have last: "last stack \<in> set stack" using False by simp
    have ps: "set ?ps \<subseteq> ?R\<^sup>+ `` set stack"
      using last by (auto simp: precondition_rel_def)
    have ps2: "?R\<^sup>+ `` set ?ps \<subseteq> ?R\<^sup>+ `` set stack"
    proof
      fix y assume "y \<in> ?R\<^sup>+ `` set ?ps"
      then obtain p where p: "p \<in> set ?ps" "(p, y) \<in> ?R\<^sup>+" by auto
      then have "(last stack, p) \<in> ?R" by (simp add: precondition_rel_def)
      with p have "(last stack, y) \<in> ?R\<^sup>+" by (meson trancl_into_trancl2)
      with last show "y \<in> ?R\<^sup>+ `` set stack" by auto
    qed
    have bl: "?R\<^sup>+ `` set (butlast stack) \<subseteq> ?R\<^sup>+ `` set stack"
      by (auto dest: in_set_butlastD)
    have "fst ?r \<union> ?R\<^sup>+ `` set (snd ?r) \<subseteq> anc \<union> ?R\<^sup>+ `` set stack"
      using ps ps2 bl by (auto simp: visit_parents_fst visit_parents_set)
    with ih have "get_ancestors_loop h (snd ?r) (fst ?r) \<subseteq> anc \<union> ?R\<^sup>+ `` set stack"
      by blast
    then show ?thesis using False by (simp add: get_ancestors_loop.simps [of h stack anc] Let_def)
  qed
qed

lemma in_set_last_butlast: "x \<in> set stack \<Longrightarrow> x = last stack \<or> x \<in> set (butlast stack)"
  by (cases stack rule: rev_cases) auto

lemma get_ancestors_loop_closed:
  "\<forall>x \<in> anc. x \<in> set stack \<or> precondition_rel h `` {x} \<subseteq> anc \<Longrightarrow>
   (\<forall>x \<in> get_ancestors_loop h stack anc \<union> set stack.
      precondition_rel h `` {x} \<subseteq> get_ancestors_loop h stack anc)"
proof (induction h stack anc rule: get_ancestors_loop.induct)
  case (1 h stack anc)
  show ?case
  proof (cases "stack = []")
    case True
    with 1(2) show ?thesis by (simp add: get_ancestors_loop.simps)
  next
    case False
    let ?R = "precondition_rel h"
    let ?ps = "preconditions (deref h (last stack))"
    let ?r = "visit_parents ?ps anc (butlast stack)"
    let ?C = "get_ancestors_loop h (snd ?r) (fst ?r)"
    have C: "get_ancestors_loop h stack anc = ?C"
      using False by (simp add: get_ancestors_loop.simps [of h stack anc] Let_def)
    have Rlast: "?R `` {last stack} = set ?ps" by (auto simp: precondition_rel_def)
    have split: "set stack = insert (last stack) (set (butlast stack))"
    proof -
      have "set stack = set (butlast stack @ [last stack])" using False by simp
      then show ?thesis by simp
    qed
    have inv: "\<forall>x \<in> fst ?r. x \<in> set (snd ?r) \<or> ?R `` {x} \<subseteq> fst ?r"
    proof
      fix x assume x: "x \<in> fst ?r"
      show "x \<in> set (snd ?r) \<or> ?R `` {x} \<subseteq> fst ?r"
      proof (cases "x \<in> anc")
        case True
        with 1(2) have "x \<in> set stack \<or> ?R `` {x} \<subseteq> anc" by blast
        then show ?thesis
          using split Rlast by (auto simp: visit_parents_fst visit_parents_set)
      next
        case False
        with x show ?thesis by (auto simp: visit_parents_fst visit_parents_set)
      qed
    qed
    have ih: "\<forall>x \<in> ?C \<union> set (snd ?r). ?R `` {x} \<subseteq> ?C"
      using 1(1) [OF False refl inv] .
    have "fst ?r \<subseteq> ?C" by (rule get_ancestors_loop_mono)
    then have l: "?R `` {last stack} \<subseteq> ?C" using Rlast by (auto simp: visit_parents_fst)
    have b: "set (butlast stack) \<subseteq> set (snd ?r)" by (auto simp: visit_parents_set)
    have "?R `` {x} \<subseteq> ?C" if xin: "x \<in> ?C \<union> set stack" for x
    proof -
      consider "x \<in> ?C" | "x = last stack" | "x \<in> set (butlast stack)"
        using xin in_set_last_butlast [of x stack] by blast
      then show ?thesis
      proof cases
        case 1
        with ih show ?thesis by blast
      next
        case 2
        with l show ?thesis by simp
      next
        case 3
        with b have "x \<in> set (snd ?r)" by blast
        with ih show ?thesis by blast
      qed
    qed
    then have "\<forall>x \<in> ?C \<union> set stack. ?R `` {x} \<subseteq> ?C" by blast
    then show ?thesis by (simp only: C)
  qed
qed

lemma get_ancestors_trancl: "get_ancestors h self = (precondition_rel h)\<^sup>+ `` {self}"
proof
  show "get_ancestors h self \<subseteq> (precondition_rel h)\<^sup>+ `` {self}"
    using get_ancestors_loop_sound [of h "[self]" "{}"] by (simp add: get_ancestors_def)
next
  let ?R = "precondition_rel h"
  let ?C = "get_ancestors h self"
  have cl: "\<forall>x \<in> ?C \<union> {self}. ?R `` {x} \<subseteq> ?C"
    using get_ancestors_loop_closed [of "{}" "[self]" h] by (simp add: get_ancestors_def)
  have "(self, y) \<in> ?R\<^sup>+ \<Longrightarrow> y \<in> ?C" for y
  proof (induction rule: trancl_induct)
    case (base y)
    with cl show ?case by blast
  next
    case (step y z)
    with cl show ?case by blast
  qed
  then show "?R\<^sup>+ `` {self} \<subseteq> ?C" by auto
qed

text \<open>
  C4. For a live parent \<^verbatim>\<open>self\<close>, \<^verbatim>\<open>self.add_child(node)\<close> raises
  \<^verbatim>\<open>CircularDependencyError\<close> if and only if \<^verbatim>\<open>node\<close> is reachable from \<^verbatim>\<open>self\<close>
  by following preconditions one or more times. When it raises, the store is unchanged;
  otherwise the call returns and the only change is that \<^verbatim>\<open>node\<close> is appended to the
  children of \<^verbatim>\<open>self\<close>.
\<close>

theorem add_child_guard:
  "self < length h \<Longrightarrow>
     ((\<exists>msg. fst (add_child h self node) = Inl (CircularDependencyError msg))
        = ((self, node) \<in> (precondition_rel h)\<^sup>+)) \<and>
     ((self, node) \<in> (precondition_rel h)\<^sup>+ \<longrightarrow> snd (add_child h self node) = h) \<and>
     ((self, node) \<notin> (precondition_rel h)\<^sup>+ \<longrightarrow>
        fst (add_child h self node) = Inr () \<and>
        snd (add_child h self node)
          = h[self := (h ! self)\<lparr>children := children (h ! self) @ [node]\<rparr>])"
  by (simp add: add_child_def get_ancestors_trancl deref_def)

text \<open>
  On the chain \<^verbatim>\<open>c\<close>, \<^verbatim>\<open>p\<close>, \<^verbatim>\<open>g\<close>: adding \<^verbatim>\<open>g\<close> below \<^verbatim>\<open>c\<close> raises and
  changes nothing, adding \<^verbatim>\<open>c\<close> below \<^verbatim>\<open>g\<close> succeeds.
\<close>

theorem add_child_guard_witness:
  "(2::nat) < length chain \<and> (2, 0) \<in> (precondition_rel chain)\<^sup>+ \<and>
   (\<exists>msg. fst (add_child chain 2 0) = Inl (CircularDependencyError msg)) \<and>
   snd (add_child chain 2 0) = chain \<and>
   (0, 2) \<notin> (precondition_rel chain)\<^sup>+ \<and>
   fst (add_child chain 0 2) = Inr () \<and>
   children (snd (add_child chain 0 2) ! 0) = [2]"
proof -
  have len: "2 < length chain" "0 < length chain" by (simp_all add: chain_def)
  have "(2, 1) \<in> precondition_rel chain" "(1, 0) \<in> precondition_rel chain"
    by (simp_all add: precondition_rel_def chain_def deref_def init_node_def)
  then have up: "(2, 0) \<in> (precondition_rel chain)\<^sup>+" by (meson trancl.intros)
  have "precondition_rel chain `` {0} = {}"
    by (auto simp: precondition_rel_def chain_def deref_def init_node_def)
  then have down: "(0, 2) \<notin> (precondition_rel chain)\<^sup>+"
    by (metis Image_singleton_iff empty_iff tranclD)
  have "children (chain ! 0) = []" by (simp add: chain_def init_node_def)
  with add_child_guard [OF len(1), of 0] add_child_guard [OF len(2), of 2] up down len
  show ?thesis by simp
qed

section \<open>Decomposition without the feasibility method\<close>

lemma decompose_no_method:
  assumes "kind (deref h a) \<noteq> AtomicNode" and "children (deref h a) \<noteq> []"
  shows "decompose TaskNode_validate_resources h p a
           = Inl (AttributeError ''validate_resources'')"
proof -
  from assms(2) obtain x xs where "children (deref h a) = x # xs"
    by (cases "children (deref h a)") auto
  with assms(1) show ?thesis
    by (cases "kind (deref h a)") (simp_all add: decompose_def TaskNode_validate_resources_def)
qed

lemma ao_star_search_no_method:
  assumes "kind (deref h (root g)) \<noteq> AtomicNode" and "children (deref h (root g)) \<noteq> []"
  shows "ao_star_search TaskNode_validate_resources h g
           = Some (Inl (AttributeError ''validate_resources''))"
proof -
  have push: "heappush [] (0, root g) = Inr [(0, root g)]"
    by (simp add: heappush_def siftdown_def siftdown_loop.simps)
  have pop: "heappop [(0, root g)] = Inr ((0, root g), [])" by (simp add: heappop_def)
  have "ao_loop TaskNode_validate_resources h g [(0, root g)] None
          = Some (Inl (AttributeError ''validate_resources''))"
    using assms(1)
    by (subst ao_loop.simps) (simp add: pop is_atomic_def decompose_no_method [OF assms])
  then show ?thesis by (simp add: ao_star_search_def push)
qed

text \<open>
  C9. With the classes as they are, \<^verbatim>\<open>decompose\<close> on an \<^verbatim>\<open>ANDNode\<close> or \<^verbatim>\<open>ORNode\<close>
  with at least one child raises \<^verbatim>\<open>AttributeError\<close> for \<^verbatim>\<open>validate_resources\<close>. When
  the node is the root, the error leaves the search, and it leaves \<^verbatim>\<open>generate_plan\<close>
  whenever \<^verbatim>\<open>validate_dag\<close> has passed.
\<close>

theorem decompose_AttributeError:
  "kind (deref h a) \<noteq> AtomicNode \<Longrightarrow> children (deref h a) \<noteq> [] \<Longrightarrow> root g = a \<Longrightarrow>
     decompose TaskNode_validate_resources h p a = Inl (AttributeError ''validate_resources'') \<and>
     ao_star_search TaskNode_validate_resources h g
       = Some (Inl (AttributeError ''validate_resources'')) \<and>
     (validate_dag h a = Inr () \<longrightarrow>
        generate_plan TaskNode_validate_resources h g
          = Some (Inl (AttributeError ''validate_resources'')))"
  using decompose_no_method [of h a p] ao_star_search_no_method [of h g]
  by (simp add: generate_plan_def)

text \<open>The root of the two-node cycle has one child.\<close>

theorem decompose_AttributeError_witness:
  "kind (deref two_cycle 0) \<noteq> AtomicNode \<and> children (deref two_cycle 0) \<noteq> [] \<and>
   decompose TaskNode_validate_resources two_cycle cpu_pool 0
     = Inl (AttributeError ''validate_resources'') \<and>
   ao_star_search TaskNode_validate_resources two_cycle (init_graph 0 cpu_pool 0.7)
     = Some (Inl (AttributeError ''validate_resources''))"
proof -
  have e: "two_cycle = [(init_node ANDNode ''a'' [] [] 0 0)\<lparr>children := [1]\<rparr>,
                        (init_node ANDNode ''b'' [] [] 0 0)\<lparr>children := [0]\<rparr>]"
    by (simp add: two_cycle_def two_nodes_def add_child_def get_ancestors_def
        get_ancestors_loop.simps deref_def init_node_def)
  have k: "kind (deref two_cycle 0) \<noteq> AtomicNode" and c: "children (deref two_cycle 0) \<noteq> []"
    by (simp_all add: e deref_def init_node_def)
  have r: "root (init_graph 0 cpu_pool 0.7) = 0" by (simp add: init_graph_def)
  from decompose_AttributeError [OF k c r, of cpu_pool] k c show ?thesis by simp
qed

section \<open>Decomposition of an \<^verbatim>\<open>ANDNode\<close>\<close>

text \<open>
  C2. The claim is that an \<^verbatim>\<open>ANDNode\<close> whose children are all feasible decomposes to
  exactly one option holding all of them. In scenario A the node \<^verbatim>\<open>ProcessData\<close> is an
  \<^verbatim>\<open>ANDNode\<close> with the children \<^verbatim>\<open>Clean\<close>, which needs 512 of the 16384 memory, and
  \<^verbatim>\<open>Transform\<close>, which needs 2 of the 8 cpu; \<^verbatim>\<open>_evaluate_option\<close> accepts each of them
  alone. \<^verbatim>\<open>decompose\<close> returns no option list for it: the call of
  \<^verbatim>\<open>validate_resources\<close> on the first child raises \<^verbatim>\<open>AttributeError\<close>.
\<close>

theorem ANDNode_decompose_raises:
  "kind (deref scenario_tree 4) = ANDNode \<and> children (deref scenario_tree 4) = [5, 6] \<and>
   resources (deref scenario_tree 5) = [(''memory'', 512)] \<and>
   scenario_pool ''memory'' = Some 16384 \<and>
   resources (deref scenario_tree 6) = [(''cpu'', 2)] \<and>
   scenario_pool ''cpu'' = Some 8 \<and>
   (\<exists>plan. evaluate_option scenario_tree scenario_pool [5] = Inr plan) \<and>
   (\<exists>plan. evaluate_option scenario_tree scenario_pool [6] = Inr plan) \<and>
   decompose TaskNode_validate_resources scenario_tree scenario_pool 4
     = Inl (AttributeError ''validate_resources'') \<and>
   decompose TaskNode_validate_resources scenario_tree scenario_pool 4 \<noteq> Inr [[5, 6]]"
  by (simp add: scenario_tree_eq deref_def init_node_def scenario_pool_def decompose_def
      TaskNode_validate_resources_def evaluate_option_def dict_get_def)

text \<open>
  The loop of \<^verbatim>\<open>ANDNode.decompose\<close> as it would run with a method in place of the
  missing one: it keeps the children that the method accepts.
\<close>

lemma and_loop_filter:
  "and_loop (Some check) h p cs options
     = Inr (options @ filter (\<lambda>c. check (deref h c) p) cs)"
  by (induction cs arbitrary: options) simp_all

section \<open>Scoring\<close>

text \<open>
  When \<^verbatim>\<open>_evaluate_option\<close> returns, the result holds the option itself, the sum of the
  costs of its pending nodes, the largest of their risks and 0, and for each resource
  the sum of the amounts that the pending nodes require; the keys of the usage are the
  resources these nodes name.
\<close>

lemma amount_of_simps [simp]:
  "amount_of k [] = 0"
  "amount_of k ((r, a) # rs) = (if r = k then a else 0) + amount_of k rs"
  "amount_of k (xs @ ys) = amount_of k xs + amount_of k ys"
  by (simp_all add: amount_of_def)

lemma add_resources_sum:
  "add_resources p rs req = Inr req' \<Longrightarrow>
   dict_get req' k 0 = dict_get req k 0 + amount_of k rs \<and> dom req' = dom req \<union> fst ` set rs"
proof (induction rs arbitrary: req)
  case Nil
  then show ?case by simp
next
  case (Cons x rs)
  obtain r a where x: "x = (r, a)" by (cases x)
  let ?req = "req(r \<mapsto> dict_get req r 0 + a)"
  from Cons.prems have step: "add_resources p rs ?req = Inr req'"
    by (auto simp: x Let_def split: if_splits option.splits)
  from Cons.IH [OF step] show ?case
    by (auto simp: x dict_get_def)
qed

lemma evaluate_loop_sums:
  "evaluate_loop h p nodes req c r = Inr (req', c', r') \<Longrightarrow>
   c' = c + sum_list (map (\<lambda>a. TaskNode.cost (deref h a)) (pending h nodes)) \<and>
   r' = fold max (map (\<lambda>a. risk (deref h a)) (pending h nodes)) r \<and>
   (\<forall>k. dict_get req' k 0 = dict_get req k 0 + amount_of k (required_items h nodes)) \<and>
   dom req' = dom req \<union> fst ` set (required_items h nodes)"
proof (induction nodes arbitrary: req c r)
  case Nil
  then show ?case by (simp add: pending_def required_items_def)
next
  case (Cons n nodes)
  show ?case
  proof (cases "state (deref h n) = ''PENDING''")
    case False
    with Cons.prems have "evaluate_loop h p nodes req c r = Inr (req', c', r')" by simp
    from Cons.IH [OF this] False show ?thesis by (simp add: pending_def required_items_def)
  next
    case True
    with Cons.prems obtain req1 where
      add: "add_resources p (resources (deref h n)) req = Inr req1" and
      step: "evaluate_loop h p nodes req1 (c + TaskNode.cost (deref h n)) (max r (risk (deref h n)))
               = Inr (req', c', r')"
      by (auto split: sum.splits)
    have p: "pending h (n # nodes) = n # pending h nodes" using True by (simp add: pending_def)
    have items: "required_items h (n # nodes) = resources (deref h n) @ required_items h nodes"
      by (simp add: required_items_def p)
    from Cons.IH [OF step] add_resources_sum [OF add] show ?thesis
      by (simp add: p items max.commute Un_assoc image_Un add.assoc)
  qed
qed

lemma fold_max_Max: "fold max xs (r::real) = Max (insert r (set xs))"
  using Max.set_eq_fold [of r xs] by simp

lemma evaluate_option_sums:
  "evaluate_option h p nodes = Inr plan \<Longrightarrow>
   sequence plan = nodes \<and>
   PlanningResult.cost plan = sum_list (map (\<lambda>a. TaskNode.cost (deref h a)) (pending h nodes)) \<and>
   risk_factor plan = Max (insert 0 (set (map (\<lambda>a. risk (deref h a)) (pending h nodes)))) \<and>
   (\<forall>k. dict_get (resource_usage plan) k 0 = amount_of k (required_items h nodes)) \<and>
   dom (resource_usage plan) = fst ` set (required_items h nodes)"
proof -
  assume "evaluate_option h p nodes = Inr plan"
  then obtain req c r where
    loop: "evaluate_loop h p nodes Map.empty 0 0 = Inr (req, c, r)" and
    plan: "plan = \<lparr>sequence = nodes, resource_usage = req, cost = c, risk_factor = r\<rparr>"
    by (auto simp: evaluate_option_def split: sum.splits)
  from evaluate_loop_sums [OF loop] show ?thesis
    by (simp add: plan fold_max_Max dict_get_def)
qed

text \<open>
  C5. The claim is that an exceeded running sum always raises \<^verbatim>\<open>ResourceConflictError\<close>.
  For the single pending task \<^verbatim>\<open>t\<close> with resources \<^verbatim>\<open>{"disk": 1}\<close> and the pool
  \<^verbatim>\<open>{"cpu": 8}\<close> the running sum 1 exceeds the capacity 0 that the test reads, and the
  call raises \<^verbatim>\<open>KeyError\<close> instead. The sums of a call that returns are as the claim
  says (\<open>evaluate_option_sums\<close>).
\<close>

theorem evaluate_option_missing_key:
  "evaluate_option disk_task cpu_pool [0] = Inl (KeyError ''disk'')"
  by (simp add: evaluate_option_def disk_task_def cpu_pool_def deref_def init_node_def
      dict_get_def)

text \<open>
  C10, as stated, fails: the option \<^verbatim>\<open>[big, t]\<close> contains the pending task \<^verbatim>\<open>t\<close>,
  which needs 1 of \<^verbatim>\<open>disk\<close>, absent from the pool, and the call raises
  \<^verbatim>\<open>ResourceConflictError\<close> all the same, for the cpu of \<^verbatim>\<open>big\<close>, which is scored first.
  And in the option \<^verbatim>\<open>[credit, t]\<close> the negative amount of \<^verbatim>\<open>credit\<close> keeps the
  running sum of \<^verbatim>\<open>disk\<close> below 0, so that the call returns.
\<close>

theorem evaluate_option_conflict_first:
  "state (deref hungry 1) = ''PENDING'' \<and> (''disk'', 1) \<in> set (resources (deref hungry 1)) \<and>
   cpu_pool ''disk'' = None \<and>
   evaluate_option hungry cpu_pool [0, 1] = Inl (ResourceConflictError ''cpu'' 100 8) \<and>
   state (deref refund 1) = ''PENDING'' \<and> (''disk'', 1) \<in> set (resources (deref refund 1)) \<and>
   evaluate_option refund cpu_pool [0, 1]
     = Inr \<lparr>sequence = [0, 1], resource_usage = [''disk'' \<mapsto> - 4], cost = 0, risk_factor = 0\<rparr>"
  by (simp add: hungry_def refund_def deref_def init_node_def cpu_pool_def evaluate_option_def
      dict_get_def)

lemma add_resources_error:
  "add_resources p rs req = Inl e \<Longrightarrow> resource_error p e"
  by (induction rs arbitrary: req)
     (auto simp: resource_error_def Let_def dict_get_def split: if_splits option.splits)

lemma evaluate_loop_error:
  "evaluate_loop h p nodes req c r = Inl e \<Longrightarrow> resource_error p e"
  by (induction nodes arbitrary: req c r)
     (auto split: if_splits sum.splits dest: add_resources_error)

lemma amount_of_nonneg:
  "list_all (\<lambda>(r, a). 0 \<le> a) items \<Longrightarrow> 0 \<le> amount_of k items"
  by (induction items) (auto simp: amount_of_def)

text \<open>
  The resource test runs over the items of the pending nodes in one sequence, so the
  outcome of a sequence of items is the outcome of its first part, followed, when that
  part passes, by the rest.
\<close>

lemma add_resources_append:
  "add_resources p (xs @ ys) req =
     (case add_resources p xs req of Inl e \<Rightarrow> Inl e | Inr req' \<Rightarrow> add_resources p ys req')"
proof (induction xs arbitrary: req)
  case Nil
  then show ?case by simp
next
  case (Cons x xs)
  obtain k v where x: "x = (k, v)" by (cases x)
  let ?req = "req(k \<mapsto> dict_get req k 0 + v)"
  show ?case
  proof (cases "dict_get req k 0 + v > dict_get p k 0")
    case True
    then show ?thesis by (simp add: x Let_def split: option.splits)
  next
    case False
    then have "add_resources p ((x # xs) @ ys) req = add_resources p (xs @ ys) ?req"
      and "add_resources p (x # xs) req = add_resources p xs ?req"
      by (simp_all add: x Let_def)
    then show ?thesis by (simp only: Cons.IH)
  qed
qed

lemma evaluate_loop_items:
  "evaluate_loop h p nodes req c r =
     (case add_resources p (required_items h nodes) req of
        Inl e \<Rightarrow> Inl e
      | Inr req' \<Rightarrow>
          Inr (req', c + sum_list (map (\<lambda>a. TaskNode.cost (deref h a)) (pending h nodes)),
               fold max (map (\<lambda>a. risk (deref h a)) (pending h nodes)) r))"
proof (induction nodes arbitrary: req c r)
  case Nil
  then show ?case by (simp add: required_items_def pending_def)
next
  case (Cons n nodes)
  show ?case
  proof (cases "state (deref h n) = ''PENDING''")
    case False
    then have items: "required_items h (n # nodes) = required_items h nodes"
      and pend: "pending h (n # nodes) = pending h nodes"
      by (simp_all add: required_items_def pending_def)
    from False have "evaluate_loop h p (n # nodes) req c r = evaluate_loop h p nodes req c r"
      by simp
    then show ?thesis by (simp only: items pend Cons.IH)
  next
    case True
    then have items: "required_items h (n # nodes) = resources (deref h n) @ required_items h nodes"
      and pend: "pending h (n # nodes) = n # pending h nodes"
      by (simp_all add: required_items_def pending_def)
    show ?thesis
    proof (cases "add_resources p (resources (deref h n)) req")
      case (Inl e)
      with True show ?thesis by (simp add: items add_resources_append)
    next
      case (Inr req1)
      with True have "evaluate_loop h p (n # nodes) req c r
          = evaluate_loop h p nodes req1 (c + TaskNode.cost (deref h n)) (max r (risk (deref h n)))"
        by simp
      also have "\<dots> = (case add_resources p (required_items h nodes) req1 of
          Inl e \<Rightarrow> Inl e
        | Inr req' \<Rightarrow>
            Inr (req', c + TaskNode.cost (deref h n)
                   + sum_list (map (\<lambda>a. TaskNode.cost (deref h a)) (pending h nodes)),
                 fold max (map (\<lambda>a. risk (deref h a)) (pending h nodes))
                   (max r (risk (deref h n)))))"
        by (rule Cons.IH)
      finally show ?thesis
        by (cases "add_resources p (required_items h nodes) req1")
           (simp_all add: items pend add_resources_append Inr max.commute add.assoc)
    qed
  qed
qed

lemma evaluate_option_items:
  "add_resources p (required_items h nodes) Map.empty = Inl e \<Longrightarrow>
   evaluate_option h p nodes = Inl e"
  by (simp add: evaluate_option_def evaluate_loop_items)

text \<open>
  Items of non-negative amounts whose totals are within the capacities pass the test;
  items that pass leave sums within the capacities; \<^verbatim>\<open>KeyError\<close> needs an item with a
  positive amount of a resource that the pool does not list.
\<close>

lemma add_resources_fits:
  "list_all (\<lambda>(k, v). 0 \<le> v) pre \<Longrightarrow>
   list_all (\<lambda>(k, v). dict_get req k 0 + amount_of k pre \<le> dict_get p k 0) pre \<Longrightarrow>
   \<exists>req'. add_resources p pre req = Inr req'"
proof (induction pre arbitrary: req)
  case Nil
  then show ?case by simp
next
  case (Cons x pre)
  obtain k v where x: "x = (k, v)" by (cases x)
  let ?req = "req(k \<mapsto> dict_get req k 0 + v)"
  have nn: "list_all (\<lambda>(k, v). 0 \<le> v) pre" and v: "0 \<le> v" using Cons.prems(1) by (simp_all add: x)
  have "dict_get req k 0 + v + amount_of k pre \<le> dict_get p k 0"
    using Cons.prems(2) by (simp add: x)
  with amount_of_nonneg [OF nn, of k] have ok: "\<not> dict_get req k 0 + v > dict_get p k 0" by simp
  have "dict_get ?req k' 0 + amount_of k' pre \<le> dict_get p k' 0" if "(k', v') \<in> set pre"
    for k' v'
  proof -
    from that Cons.prems(2)
    have "dict_get req k' 0 + amount_of k' ((k, v) # pre) \<le> dict_get p k' 0"
      by (auto simp: x list_all_iff)
    then show ?thesis by (cases "k' = k") (simp_all add: dict_get_def)
  qed
  then have "list_all (\<lambda>(k', v'). dict_get ?req k' 0 + amount_of k' pre \<le> dict_get p k' 0) pre"
    by (auto simp: list_all_iff)
  from Cons.IH [OF nn this] obtain req' where r: "add_resources p pre ?req = Inr req'" by blast
  have "add_resources p (x # pre) req = add_resources p pre ?req"
    using ok by (simp add: x Let_def)
  with r show ?case by simp
qed

lemma amount_of_absent: "k \<notin> fst ` set rs \<Longrightarrow> amount_of k rs = 0"
  by (induction rs) (auto simp: amount_of_def)

lemma add_resources_within:
  "add_resources p rs req = Inr req' \<Longrightarrow>
   list_all (\<lambda>(k, v). dict_get req' k 0 \<le> dict_get p k 0) rs"
proof (induction rs arbitrary: req)
  case Nil
  then show ?case by simp
next
  case (Cons x rs)
  obtain k v where x: "x = (k, v)" by (cases x)
  let ?req = "req(k \<mapsto> dict_get req k 0 + v)"
  from Cons.prems have ok: "\<not> dict_get req k 0 + v > dict_get p k 0"
    and step: "add_resources p rs ?req = Inr req'"
    by (auto simp: x Let_def split: if_splits option.splits)
  have tl: "list_all (\<lambda>(k, v). dict_get req' k 0 \<le> dict_get p k 0) rs"
    by (rule Cons.IH [OF step])
  have "dict_get req' k 0 \<le> dict_get p k 0"
  proof (cases "k \<in> fst ` set rs")
    case True
    with tl show ?thesis by (auto simp: list_all_iff)
  next
    case False
    then have "amount_of k rs = 0" by (rule amount_of_absent)
    with add_resources_sum [OF step, of k] ok show ?thesis by (simp add: dict_get_def)
  qed
  with tl show ?case by (simp add: x)
qed


lemma add_resources_KeyError:
  "add_resources p rs req = Inl (KeyError k) \<Longrightarrow>
   (\<forall>k. p k = None \<longrightarrow> dict_get req k 0 \<le> 0) \<Longrightarrow>
   \<exists>v. (k, v) \<in> set rs \<and> p k = None \<and> 0 < v"
proof (induction rs arbitrary: req)
  case Nil
  then show ?case by simp
next
  case (Cons x rs)
  obtain k' v' where x: "x = (k', v')" by (cases x)
  let ?req = "req(k' \<mapsto> dict_get req k' 0 + v')"
  show ?case
  proof (cases "dict_get req k' 0 + v' > dict_get p k' 0")
    case True
    with Cons.prems(1) have k: "k = k'" "p k' = None"
      by (auto simp: x Let_def split: option.splits)
    from Cons.prems(2) k(2) have "dict_get req k' 0 \<le> 0" by blast
    moreover from k(2) have "dict_get p k' 0 = 0" by (simp add: dict_get_def)
    ultimately have "0 < v'" using True by simp
    with k show ?thesis by (auto simp: x)
  next
    case False
    with Cons.prems(1) have step: "add_resources p rs ?req = Inl (KeyError k)"
      by (simp add: x Let_def)
    have "\<forall>k. p k = None \<longrightarrow> dict_get ?req k 0 \<le> 0"
      using Cons.prems(2) False by (auto simp: dict_get_def)
    from Cons.IH [OF step this] show ?thesis by auto
  qed
qed

lemma add_resources_conflict_key:
  "add_resources p rs req = Inl (ResourceConflictError k q a) \<Longrightarrow> k \<in> fst ` set rs"
proof (induction rs arbitrary: req)
  case Nil
  then show ?case by simp
next
  case (Cons x rs)
  obtain k' v' where x: "x = (k', v')" by (cases x)
  let ?req = "req(k' \<mapsto> dict_get req k' 0 + v')"
  show ?case
  proof (cases "dict_get req k' 0 + v' > dict_get p k' 0")
    case True
    with Cons.prems have "k = k'" by (auto simp: x Let_def split: option.splits)
    then show ?thesis by (simp add: x)
  next
    case False
    with Cons.prems have "add_resources p rs ?req = Inl (ResourceConflictError k q a)"
      by (simp add: x Let_def)
    from Cons.IH [OF this] show ?thesis by simp
  qed
qed

lemma amount_of_zero:
  "list_all (\<lambda>(k', v). k' = k \<longrightarrow> v = 0) rs \<Longrightarrow> amount_of k rs = 0"
  by (induction rs) (auto simp: amount_of_def)

lemma first_absent_KeyError:
  assumes nn: "list_all (\<lambda>(k, v). 0 \<le> v) pre"
    and quiet: "list_all (\<lambda>(k, v). p k \<noteq> None \<or> v = 0) pre"
    and fits: "list_all (\<lambda>(k, v). amount_of k pre \<le> dict_get p k 0) pre"
    and absent: "p res = None" and pos: "0 < amount"
  shows "add_resources p (pre @ (res, amount) # post) Map.empty = Inl (KeyError res)"
proof -
  have "list_all (\<lambda>(k, v). dict_get Map.empty k 0 + amount_of k pre \<le> dict_get p k 0) pre"
    using fits by (simp add: dict_get_def)
  from add_resources_fits [OF nn this]
  obtain req1 where pre: "add_resources p pre Map.empty = Inr req1" by blast
  have "list_all (\<lambda>(k', v). k' = res \<longrightarrow> v = 0) pre"
    using quiet absent by (auto simp: list_all_iff)
  then have "amount_of res pre = 0" by (rule amount_of_zero)
  with add_resources_sum [OF pre, of res] have "dict_get req1 res 0 = 0"
    by (simp add: dict_get_def)
  with absent pos have "add_resources p ((res, amount) # post) req1 = Inl (KeyError res)"
    by (simp add: Let_def dict_get_def)
  with pre show ?thesis by (simp add: add_resources_append)
qed

lemma earlier_conflict:
  assumes quiet: "list_all (\<lambda>(k, v). p k \<noteq> None \<or> v = 0) pre"
    and over: "\<not> list_all (\<lambda>(k, v). amount_of k pre \<le> dict_get p k 0) pre"
  shows "\<exists>k q a. add_resources p (pre @ rest) Map.empty = Inl (ResourceConflictError k q a) \<and>
           k \<in> fst ` set pre \<and> p k = Some a \<and> a < q"
proof -
  from over obtain k v where kv: "(k, v) \<in> set pre" and big: "dict_get p k 0 < amount_of k pre"
    by (auto simp: list_all_iff)
  have "\<exists>e. add_resources p pre Map.empty = Inl e"
  proof (cases "add_resources p pre Map.empty")
    case (Inl e)
    then show ?thesis by simp
  next
    case (Inr req1)
    from add_resources_within [OF Inr] kv have "dict_get req1 k 0 \<le> dict_get p k 0"
      by (auto simp: list_all_iff)
    with add_resources_sum [OF Inr, of k] big show ?thesis by (simp add: dict_get_def)
  qed
  then obtain e where e: "add_resources p pre Map.empty = Inl e" by blast
  then have re: "resource_error p e" by (rule add_resources_error)
  have "\<exists>k q a. e = ResourceConflictError k q a \<and> p k = Some a \<and> a < q"
  proof (cases e)
    case (KeyError k')
    have "\<forall>k. p k = None \<longrightarrow> dict_get Map.empty k (0::int) \<le> 0" by (simp add: dict_get_def)
    from add_resources_KeyError [OF e [unfolded KeyError] this]
    obtain v' where "(k', v') \<in> set pre" "p k' = None" "0 < v'" by blast
    with quiet show ?thesis by (auto simp: list_all_iff)
  next
    case (ResourceConflictError k' q a)
    with re show ?thesis by (simp add: resource_error_def)
  qed (use re in \<open>simp_all add: resource_error_def\<close>)
  then obtain k' q a where c: "e = ResourceConflictError k' q a" "p k' = Some a" "a < q" by blast
  from e c(1) have "k' \<in> fst ` set pre" by (auto dest: add_resources_conflict_key)
  with e c show ?thesis by (simp add: add_resources_append)
qed

text \<open>
  C10, amended. Let all required amounts in the option be non-negative, and let the
  option contain a pending node that requires a positive amount of a resource absent
  from the pool. Then \<^verbatim>\<open>_evaluate_option\<close> does not return, and the exception is fixed
  by the order of the iteration. Among the items \<^verbatim>\<open>(resource, amount)\<close> of the pending
  nodes, in that order, take the first one of a positive amount of an absent resource,
  \<open>(res', amount')\<close>, and the items \<open>pre\<close> before it. If the amounts in \<open>pre\<close> of each
  resource that the pool lists add up to at most its capacity, the call raises
  \<^verbatim>\<open>KeyError\<close> for \<open>res'\<close>.
  Otherwise a capacity is exceeded before \<open>res'\<close> is reached, and the call raises
  \<^verbatim>\<open>ResourceConflictError\<close> for a resource named in \<open>pre\<close> that the pool lists, with
  an available amount below the required one. (The amounts are non-negative, so a
  running sum exceeds a capacity within \<open>pre\<close> exactly when the total over \<open>pre\<close> does.)
\<close>

theorem evaluate_option_absent_resource:
  "node \<in> set nodes \<Longrightarrow> state (deref h node) = ''PENDING'' \<Longrightarrow>
   (res, amount) \<in> set (resources (deref h node)) \<Longrightarrow> 0 < amount \<Longrightarrow> p res = None \<Longrightarrow>
   list_all (\<lambda>n. list_all (\<lambda>(r, a). 0 \<le> a) (resources (deref h n))) nodes \<Longrightarrow>
   \<exists>pre res' amount' post.
     required_items h nodes = pre @ (res', amount') # post \<and>
     p res' = None \<and> 0 < amount' \<and>
     list_all (\<lambda>(k, v). p k \<noteq> None \<or> v = 0) pre \<and>
     (if list_all (\<lambda>(k, v). case p k of None \<Rightarrow> True | Some a \<Rightarrow> amount_of k pre \<le> a) pre
      then evaluate_option h p nodes = Inl (KeyError res')
      else \<exists>k q a. evaluate_option h p nodes = Inl (ResourceConflictError k q a) \<and>
             k \<in> fst ` set pre \<and> p k = Some a \<and> a < q)"
proof -
  assume a: "node \<in> set nodes" "state (deref h node) = ''PENDING''"
    "(res, amount) \<in> set (resources (deref h node))" "0 < amount" "p res = None"
    "list_all (\<lambda>n. list_all (\<lambda>(r, a). 0 \<le> a) (resources (deref h n))) nodes"
  let ?items = "required_items h nodes"
  let ?P = "\<lambda>x. p (fst x) = None \<and> 0 < snd x"
  have nn: "list_all (\<lambda>(k, v). 0 \<le> v) ?items"
    using a(6) by (auto simp: required_items_def pending_def list_all_iff)
  have "(res, amount) \<in> set ?items"
    using a(1-3) by (auto simp: required_items_def pending_def)
  with a(4,5) have "\<exists>x \<in> set ?items. ?P x" by force
  from split_list_first_prop [OF this]
  obtain pre x post where sp: "?items = pre @ x # post" and px: "?P x"
    and before: "\<forall>y \<in> set pre. \<not> ?P y" by blast
  obtain res' amount' where x: "x = (res', amount')" by (cases x)
  from nn sp have nnpre: "list_all (\<lambda>(k, v). 0 \<le> v) pre" by simp
  have quiet: "list_all (\<lambda>(k, v). p k \<noteq> None \<or> v = 0) pre"
    using before nnpre by (fastforce simp: list_all_iff)
  have res: "p res' = None" "0 < amount'" using px by (simp_all add: x)
  have fits_iff: "list_all (\<lambda>(k, v). case p k of None \<Rightarrow> True | Some a \<Rightarrow> amount_of k pre \<le> a) pre
      \<longleftrightarrow> list_all (\<lambda>(k, v). amount_of k pre \<le> dict_get p k 0) pre"
  proof -
    have "amount_of k pre = 0" if "p k = None" for k
    proof (rule amount_of_zero)
      show "list_all (\<lambda>(k', v). k' = k \<longrightarrow> v = 0) pre"
        using quiet that by (auto simp: list_all_iff)
    qed
    then show ?thesis
      by (auto simp: list_all_iff dict_get_def split: option.splits)
  qed
  have "if list_all (\<lambda>(k, v). case p k of None \<Rightarrow> True | Some a \<Rightarrow> amount_of k pre \<le> a) pre
      then evaluate_option h p nodes = Inl (KeyError res')
      else \<exists>k q a. evaluate_option h p nodes = Inl (ResourceConflictError k q a) \<and>
             k \<in> fst ` set pre \<and> p k = Some a \<and> a < q"
  proof (cases "list_all (\<lambda>(k, v). amount_of k pre \<le> dict_get p k 0) pre")
    case True
    then have fits: "list_all (\<lambda>(k, v). case p k of None \<Rightarrow> True | Some a \<Rightarrow> amount_of k pre \<le> a) pre"
      by (simp add: fits_iff)
    from first_absent_KeyError [OF nnpre quiet True res, of post]
    have "evaluate_option h p nodes = Inl (KeyError res')"
      by (intro evaluate_option_items) (simp add: sp x)
    with fits show ?thesis by simp
  next
    case False
    then have over: "\<not> list_all (\<lambda>(k, v). case p k of None \<Rightarrow> True | Some a \<Rightarrow> amount_of k pre \<le> a) pre"
      by (simp add: fits_iff)
    from earlier_conflict [OF quiet False, of "x # post"]
    obtain k q c where "add_resources p ?items Map.empty = Inl (ResourceConflictError k q c)"
      and kc: "k \<in> fst ` set pre" "p k = Some c" "c < q"
      by (auto simp: sp)
    then have "evaluate_option h p nodes = Inl (ResourceConflictError k q c)"
      by (intro evaluate_option_items)
    with over kc show ?thesis by auto
  qed
  with sp x res quiet show ?thesis by blast
qed

text \<open>
  The option \<^verbatim>\<open>[small, t]\<close>: the cpu fits, the disk raises \<^verbatim>\<open>KeyError\<close>. So does the
  option \<^verbatim>\<open>[t, big]\<close>, where nothing comes before the disk; in \<^verbatim>\<open>[big, t]\<close> the cpu
  comes first and raises \<^verbatim>\<open>ResourceConflictError\<close>.
\<close>

theorem evaluate_option_absent_resource_witness:
  "(1::nat) \<in> set [0, 1] \<and> state (deref thrifty 1) = ''PENDING'' \<and>
   (''disk'', 1) \<in> set (resources (deref thrifty 1)) \<and> cpu_pool ''disk'' = None \<and>
   list_all (\<lambda>n. list_all (\<lambda>(r, a). 0 \<le> a) (resources (deref thrifty n))) [0, 1] \<and>
   (\<exists>pre res' amount' post.
     required_items thrifty [0, 1] = pre @ (res', amount') # post \<and>
     cpu_pool res' = None \<and> 0 < amount' \<and>
     list_all (\<lambda>(k, v). cpu_pool k \<noteq> None \<or> v = 0) pre \<and>
     (if list_all (\<lambda>(k, v). case cpu_pool k of None \<Rightarrow> True | Some a \<Rightarrow> amount_of k pre \<le> a) pre
      then evaluate_option thrifty cpu_pool [0, 1] = Inl (KeyError res')
      else \<exists>k q a. evaluate_option thrifty cpu_pool [0, 1] = Inl (ResourceConflictError k q a) \<and>
             k \<in> fst ` set pre \<and> cpu_pool k = Some a \<and> a < q)) \<and>
   required_items thrifty [0, 1] = [(''cpu'', 1)] @ (''disk'', 1) # [] \<and>
   evaluate_option thrifty cpu_pool [0, 1] = Inl (KeyError ''disk'') \<and>
   required_items late [0, 1] = [] @ (''disk'', 1) # [(''cpu'', 100)] \<and>
   evaluate_option late cpu_pool [0, 1] = Inl (KeyError ''disk'') \<and>
   required_items hungry [0, 1] = [(''cpu'', 100)] @ (''disk'', 1) # [] \<and>
   evaluate_option hungry cpu_pool [0, 1] = Inl (ResourceConflictError ''cpu'' 100 8)"
proof -
  have 1: "(1::nat) \<in> set [0, 1]" by simp
  have 2: "state (deref thrifty 1) = ''PENDING''"
    by (simp add: thrifty_def deref_def init_node_def)
  have 3: "(''disk'', 1) \<in> set (resources (deref thrifty 1))"
    by (simp add: thrifty_def deref_def init_node_def)
  have 4: "(0::int) < 1" by simp
  have 5: "cpu_pool ''disk'' = None" by (simp add: cpu_pool_def)
  have 6: "list_all (\<lambda>n. list_all (\<lambda>(r, a). 0 \<le> a) (resources (deref thrifty n))) [0, 1]"
    by (simp add: thrifty_def deref_def init_node_def)
  have 7: "evaluate_option thrifty cpu_pool [0, 1] = Inl (KeyError ''disk'')"
    "evaluate_option late cpu_pool [0, 1] = Inl (KeyError ''disk'')"
    "evaluate_option hungry cpu_pool [0, 1] = Inl (ResourceConflictError ''cpu'' 100 8)"
    by (simp_all add: thrifty_def late_def hungry_def deref_def init_node_def cpu_pool_def
        evaluate_option_def dict_get_def)
  have 8: "required_items thrifty [0, 1] = [(''cpu'', 1)] @ (''disk'', 1) # []"
    "required_items late [0, 1] = [] @ (''disk'', 1) # [(''cpu'', 100)]"
    "required_items hungry [0, 1] = [(''cpu'', 100)] @ (''disk'', 1) # []"
    by (simp_all add: required_items_def pending_def thrifty_def late_def hungry_def deref_def
        init_node_def)
  note inst = evaluate_option_absent_resource [where p = cpu_pool and res = "''disk''", OF 1 2 3 4 5 6]
  show ?thesis
    apply (intro conjI)
    apply (rule 1 2 3 5 6 inst 7 8)+
    done
qed

section \<open>The search\<close>







lemma crowded_eq:
  "crowded = [(init_node ANDNode ''both'' [] [] 0 0)\<lparr>children := [1, 2]\<rparr>,
      init_node AtomicNode ''x'' [] [(''cpu'', 5)] 1 0,
      init_node AtomicNode ''y'' [] [(''cpu'', 5)] 1 0]"
  by (simp add: crowded_def add_child_def get_ancestors_def get_ancestors_loop.simps deref_def
      init_node_def)








text \<open>
  The exceptions that leave the helpers of the search are built-in exceptions, and
  \<^verbatim>\<open>validate_dag\<close> raises \<^verbatim>\<open>CircularDependencyError\<close> only. Once \<^verbatim>\<open>best_plan\<close> is
  set it stays set.
\<close>

lemma entry_lt_error: "entry_lt x y = Inl e \<Longrightarrow> e = TypeError"
  by (auto simp: entry_lt_def split: if_splits)

lemma siftdown_loop_error: "siftdown_loop heap x s p = Inl e \<Longrightarrow> e = TypeError"
proof (induction heap x s p rule: siftdown_loop.induct)
  case (1 heap newitem startpos pos)
  from "1.prems" show ?case
    by (subst (asm) siftdown_loop.simps)
       (auto simp: Let_def split: if_splits sum.splits dest: entry_lt_error intro: "1.IH")
qed

lemma siftdown_error: "siftdown heap s p = Inl e \<Longrightarrow> builtin_error e"
  by (auto simp: siftdown_def builtin_error_def split: if_splits dest: siftdown_loop_error)

lemma siftup_loop_error: "siftup_loop heap p = Inl e \<Longrightarrow> e = TypeError"
proof (induction heap p rule: siftup_loop.induct)
  case (1 heap pos)
  from "1.prems" show ?case
    by (subst (asm) siftup_loop.simps)
       (auto simp: Let_def split: if_splits sum.splits dest: entry_lt_error intro: "1.IH")
qed

lemma siftup_error: "siftup heap p = Inl e \<Longrightarrow> builtin_error e"
  by (auto simp: siftup_def split: if_splits sum.splits
      dest: siftup_loop_error siftdown_error simp: builtin_error_def)

lemma heappush_error: "heappush heap x = Inl e \<Longrightarrow> builtin_error e"
  by (auto simp: heappush_def dest: siftdown_error)

lemma heappop_error: "heappop heap = Inl e \<Longrightarrow> builtin_error e"
  by (auto simp: heappop_def Let_def builtin_error_def split: if_splits sum.splits
      dest: siftup_error)

lemma and_loop_error: "and_loop vr h p cs acc = Inl e \<Longrightarrow> builtin_error e"
  by (induction cs arbitrary: acc) (auto simp: builtin_error_def split: option.splits if_splits)

lemma or_loop_error: "or_loop vr h p cs acc = Inl e \<Longrightarrow> builtin_error e"
  by (induction cs arbitrary: acc) (auto simp: builtin_error_def split: option.splits if_splits)

lemma decompose_error: "decompose vr h p a = Inl e \<Longrightarrow> builtin_error e"
  by (auto simp: decompose_def split: node_kind.splits sum.splits
      dest: and_loop_error or_loop_error simp: builtin_error_def)

lemma evaluate_option_error:
  "evaluate_option h p nodes = Inl e \<Longrightarrow> resource_error p e"
  by (auto simp: evaluate_option_def split: sum.splits dest: evaluate_loop_error)

lemma score_options_error:
  "score_options h g cc opts heap best = Inl e \<Longrightarrow> builtin_error e"
proof (induction opts arbitrary: heap best)
  case Nil
  then show ?case by simp
next
  case (Cons opt opts)
  show ?case
  proof (cases "evaluate_option h (resource_pool g) opt")
    case (Inl e')
    from evaluate_option_error [OF Inl] consider
      k where "e' = KeyError k" | r q a where "e' = ResourceConflictError r q a"
      by (cases e') (auto simp: resource_error_def)
    then show ?thesis
    proof cases
      case 1
      with Inl Cons.prems have "e = KeyError k" by simp
      then show ?thesis by (simp add: builtin_error_def)
    next
      case 2
      with Inl Cons.prems have "score_options h g cc opts heap best = Inl e" by simp
      then show ?thesis by (rule Cons.IH)
    qed
  next
    case (Inr plan)
    show ?thesis
    proof (cases "risk_factor plan > risk_threshold g")
      case True
      with Inr Cons.prems have "score_options h g cc opts heap best = Inl e" by simp
      then show ?thesis by (rule Cons.IH)
    next
      case False
      let ?total = "cc + PlanningResult.cost plan"
      show ?thesis
      proof (cases "case best of None \<Rightarrow> True | Some b \<Rightarrow> ?total < PlanningResult.cost b")
        case better: True
        show ?thesis
        proof (cases "opt = []")
          case True
          with Inr False better Cons.prems show ?thesis by (simp add: builtin_error_def Let_def)
        next
          case ne: False
          show ?thesis
          proof (cases "heappush heap (?total, last opt)")
            case (Inl e')
            with Inr False better ne Cons.prems have "e = e'" by (simp add: Let_def)
            with Inl show ?thesis by (auto dest: heappush_error)
          next
            case push: (Inr heap1)
            with Inr False better ne Cons.prems
            have "score_options h g cc opts heap1 (Some (plan\<lparr>cost := ?total\<rparr>)) = Inl e"
              by (simp add: Let_def)
            then show ?thesis by (rule Cons.IH)
          qed
        qed
      next
        case worse: False
        with Inr False Cons.prems have "score_options h g cc opts heap best = Inl e"
          by (simp add: Let_def)
        then show ?thesis by (rule Cons.IH)
      qed
    qed
  qed
qed

lemma score_options_keeps_best:
  "score_options h g cc opts heap (Some b) = Inr (heap', best') \<Longrightarrow> best' \<noteq> None"
proof (induction opts arbitrary: heap b)
  case Nil
  then show ?case by auto
next
  case (Cons opt opts)
  from Cons.prems show ?case
    by (auto simp: Let_def split: sum.splits error.splits if_splits dest: Cons.IH)
qed

lemma validate_dag_loop_error:
  "validate_dag_loop h stack visited = Inl e \<Longrightarrow> \<exists>m. e = CircularDependencyError m"
proof (induction h stack visited rule: validate_dag_loop.induct)
  case (1 h stack visited)
  from "1.prems" show ?case
    by (subst (asm) validate_dag_loop.simps)
       (auto simp: Let_def split: if_splits intro: "1.IH")
qed

lemma ao_loop_error:
  "ao_loop vr h g heap best = Some (Inl e) \<Longrightarrow> builtin_error e"
proof -
  have "ao_loop vr h g heap best = Some y \<Longrightarrow> \<forall>e. y = Inl e \<longrightarrow> builtin_error e" for y
  proof (induction rule: ao_loop.raw_induct [rotated, consumes 1])
    case (1 f vr h g heap best y)
    show ?case
    proof (intro allI impI)
      fix e assume y: "y = Inl e"
      show "builtin_error e"
      proof (cases "heap = []")
        case True
        with 1(2) y show ?thesis by simp
      next
        case False
        show ?thesis
        proof (cases "heappop heap")
          case (Inl e')
          with 1(2) False y show ?thesis by (auto dest: heappop_error)
        next
          case (Inr r)
          obtain current heap1 where r: "r = (current, heap1)" by (cases r)
          show ?thesis
          proof (cases "is_atomic (deref h (snd current))")
            case True
            with 1(2) False Inr r have "f vr h g heap1 best = Some y" by simp
            from 1(1) [OF this] y show ?thesis by simp
          next
            case na: False
            show ?thesis
            proof (cases "decompose vr h (resource_pool g) (snd current)")
              case (Inl e')
              with 1(2) False Inr r na y show ?thesis by (auto dest: decompose_error)
            next
              case ds: (Inr ds)
              show ?thesis
              proof (cases "score_options h g (fst current) ds heap1 best")
                case (Inl e')
                with 1(2) False Inr r na ds y show ?thesis by (auto dest: score_options_error)
              next
                case sc: (Inr q)
                obtain heap2 best2 where q: "q = (heap2, best2)" by (cases q)
                with 1(2) False Inr r na ds sc have "f vr h g heap2 best2 = Some y" by simp
                from 1(1) [OF this] y show ?thesis by simp
              qed
            qed
          qed
        qed
      qed
    qed
  qed
  then show "ao_loop vr h g heap best = Some (Inl e) \<Longrightarrow> builtin_error e" by blast
qed

lemma ao_loop_keeps_best:
  "ao_loop vr h g heap (Some b) \<noteq> Some (Inr None)"
proof -
  have "ao_loop vr h g heap best = Some y \<Longrightarrow> best \<noteq> None \<longrightarrow> y \<noteq> Inr None" for y best
  proof (induction rule: ao_loop.raw_induct [rotated, consumes 1])
    case (1 f vr h g heap best y)
    show ?case
    proof
      assume best: "best \<noteq> None"
      show "y \<noteq> Inr None"
      proof (cases "heap = []")
        case True
        with 1(2) best show ?thesis by auto
      next
        case False
        show ?thesis
        proof (cases "heappop heap")
          case (Inl e')
          with 1(2) False show ?thesis by auto
        next
          case (Inr r)
          obtain current heap1 where r: "r = (current, heap1)" by (cases r)
          show ?thesis
          proof (cases "is_atomic (deref h (snd current))")
            case True
            with 1(2) False Inr r have "f vr h g heap1 best = Some y" by simp
            from 1(1) [OF this] best show ?thesis by simp
          next
            case na: False
            show ?thesis
            proof (cases "decompose vr h (resource_pool g) (snd current)")
              case (Inl e')
              with 1(2) False Inr r na show ?thesis by auto
            next
              case ds: (Inr ds)
              show ?thesis
              proof (cases "score_options h g (fst current) ds heap1 best")
                case (Inl e')
                with 1(2) False Inr r na ds show ?thesis by auto
              next
                case sc: (Inr q)
                obtain heap2 best2 where q: "q = (heap2, best2)" by (cases q)
                from best obtain b where "best = Some b" by auto
                with sc q have "best2 \<noteq> None" by (auto dest: score_options_keeps_best)
                moreover from 1(2) False Inr r na ds sc q have "f vr h g heap2 best2 = Some y"
                  by simp
                ultimately show ?thesis using 1(1) by blast
              qed
            qed
          qed
        qed
      qed
    qed
  qed
  then show ?thesis by blast
qed


lemma generate_plan_unfold:
  "generate_plan vr h g =
     (case validate_dag h (root g) of
        Inl e \<Rightarrow> Some (Inl e)
      | Inr u \<Rightarrow>
          (case ao_loop vr h g [(0, root g)] None of
             None \<Rightarrow> None
           | Some (Inl e) \<Rightarrow> Some (Inl e)
           | Some (Inr None) \<Rightarrow> Some (Inl (PlanException ''No valid plan found within constraints''))
           | Some (Inr (Some best_plan)) \<Rightarrow> Some (Inr best_plan)))"
proof -
  have "heappush [] (0, root g) = Inr [(0, root g)]"
    by (simp add: heappush_def siftdown_def siftdown_loop.simps)
  then show ?thesis
    by (cases "validate_dag h (root g)") (simp_all add: generate_plan_def ao_star_search_def)
qed

text \<open>
  C7. \<^verbatim>\<open>generate_plan\<close> raises \<^verbatim>\<open>PlanException\<close> itself (not a subclass) exactly when
  \<^verbatim>\<open>validate_dag\<close> passes and the loop, started on the heap holding the root at cost 0
  with no best plan, ends on the empty heap with \<^verbatim>\<open>best_plan\<close> still \<^verbatim>\<open>None\<close>; the
  exception carries the message only. A loop that holds a best plan never ends without
  one, so \<^verbatim>\<open>None\<close> at the end means that no plan was ever accepted. A
  \<^verbatim>\<open>ResourceConflictError\<close> raised while an option is scored makes the loop go on with
  the remaining options, heap and \<^verbatim>\<open>best_plan\<close> unchanged, and \<^verbatim>\<open>generate_plan\<close> never
  raises \<^verbatim>\<open>ResourceConflictError\<close>.
\<close>

theorem generate_plan_failure:
  "((generate_plan vr h g = Some (Inl (PlanException msg)))
      = (msg = ''No valid plan found within constraints'' \<and> validate_dag h (root g) = Inr () \<and>
         ao_loop vr h g [(0, root g)] None = Some (Inr None))) \<and>
   ao_loop vr h g heap (Some b) \<noteq> Some (Inr None) \<and>
   generate_plan vr h g \<noteq> Some (Inl (ResourceConflictError r q a)) \<and>
   (evaluate_option h (resource_pool g) option = Inl (ResourceConflictError r q a)
      \<longrightarrow> score_options h g cc (option # rest) heap best
            = score_options h g cc rest heap best)"
proof -
  have dag: "validate_dag h (root g) = Inl e \<Longrightarrow> \<exists>m. e = CircularDependencyError m" for e
    unfolding validate_dag_def by (rule validate_dag_loop_error)
  have loop: "ao_loop vr h g [(0, root g)] None = Some (Inl e) \<Longrightarrow> builtin_error e" for e
    by (rule ao_loop_error)
  have 1: "(generate_plan vr h g = Some (Inl (PlanException msg)))
      = (msg = ''No valid plan found within constraints'' \<and> validate_dag h (root g) = Inr () \<and>
         ao_loop vr h g [(0, root g)] None = Some (Inr None))"
    unfolding generate_plan_unfold
    by (auto split: sum.splits option.splits dest!: dag loop simp: builtin_error_def)
  have 3: "generate_plan vr h g \<noteq> Some (Inl (ResourceConflictError r q a))"
    unfolding generate_plan_unfold
    by (auto split: sum.splits option.splits dest!: dag loop simp: builtin_error_def)
  show ?thesis using 1 3 ao_loop_keeps_best by simp
qed

text \<open>
  The node \<^verbatim>\<open>both\<close>: its one option needs 10 cpu of 8, the conflict is caught, and the
  run ends with \<^verbatim>\<open>PlanException\<close>.
\<close>

theorem generate_plan_failure_witness:
  "evaluate_option crowded (resource_pool (init_graph 0 cpu_pool 0.7)) [1, 2]
     = Inl (ResourceConflictError ''cpu'' 10 8) \<and>
   score_options crowded (init_graph 0 cpu_pool 0.7) 0 [[1, 2]] [] None = Inr ([], None) \<and>
   validate_dag crowded (root (init_graph 0 cpu_pool 0.7)) = Inr () \<and>
   ao_loop (Some within_pool) crowded (init_graph 0 cpu_pool 0.7) [(0, 0)] None = Some (Inr None) \<and>
   generate_plan (Some within_pool) crowded (init_graph 0 cpu_pool 0.7)
     = Some (Inl (PlanException ''No valid plan found within constraints''))"
proof -
  let ?g = "init_graph 0 cpu_pool 0.7"
  have ev: "evaluate_option crowded (resource_pool ?g) [1, 2]
              = Inl (ResourceConflictError ''cpu'' 10 8)"
    by (simp add: evaluate_option_def crowded_eq deref_def init_node_def init_graph_def
        cpu_pool_def dict_get_def)
  have dag: "validate_dag crowded (root ?g) = Inr ()"
    by (simp add: init_graph_def crowded_eq validate_dag_def validate_dag_loop.simps deref_def
        init_node_def)
  note inst = generate_plan_failure [of "Some within_pool" crowded ?g
      "''No valid plan found within constraints''" "[]" choice_plan "''cpu''" 10 8 "[1, 2]" 0
      "[]" None]
  from inst ev have sc: "score_options crowded ?g 0 [[1, 2]] [] None = Inr ([], None)"
    by simp
  have root: "root ?g = 0" by (simp add: init_graph_def)
  have loop: "ao_loop (Some within_pool) crowded ?g [(0, 0)] None = Some (Inr None)"
    by (simp add: ao_loop.simps heappop_def is_atomic_def decompose_def crowded_eq deref_def
        init_node_def init_graph_def within_pool_def cpu_pool_def dict_get_def
        evaluate_option_def)
  from inst dag loop root
  have "generate_plan (Some within_pool) crowded ?g
     = Some (Inl (PlanException ''No valid plan found within constraints''))"
    by simp
  with ev sc dag loop show ?thesis by simp
qed

text \<open>
  With the classes as they are, every run of \<^verbatim>\<open>generate_plan\<close> ends in one of three
  exceptions, and none returns a plan.
\<close>

lemma generate_plan_no_method:
  "(\<exists>m. generate_plan TaskNode_validate_resources h g = Some (Inl (CircularDependencyError m))) \<or>
   generate_plan TaskNode_validate_resources h g
     = Some (Inl (PlanException ''No valid plan found within constraints'')) \<or>
   generate_plan TaskNode_validate_resources h g
     = Some (Inl (AttributeError ''validate_resources''))"
proof (cases "validate_dag h (root g)")
  case (Inl e)
  then obtain m where "e = CircularDependencyError m"
    unfolding validate_dag_def by (auto dest: validate_dag_loop_error)
  with Inl show ?thesis by (simp add: generate_plan_def)
next
  case (Inr u)
  let ?r = "root g"
  have pop: "heappop [(0, ?r)] = Inr ((0, ?r), [])" by (simp add: heappop_def)
  have fin: "ao_loop TaskNode_validate_resources h g [] None = Some (Inr None)"
    by (subst ao_loop.simps) simp
  show ?thesis
  proof (cases "kind (deref h ?r) \<noteq> AtomicNode \<and> children (deref h ?r) \<noteq> []")
    case True
    then have "ao_star_search TaskNode_validate_resources h g
                 = Some (Inl (AttributeError ''validate_resources''))"
      by (intro ao_star_search_no_method) simp_all
    with Inr show ?thesis by (simp add: generate_plan_def)
  next
    case False
    have "ao_loop TaskNode_validate_resources h g [(0, ?r)] None = Some (Inr None)"
    proof (cases "kind (deref h ?r)")
      case AtomicNode
      then show ?thesis by (subst ao_loop.simps) (simp add: pop is_atomic_def fin)
    next
      case ANDNode
      with False have "decompose TaskNode_validate_resources h (resource_pool g) ?r = Inr []"
        by (simp add: decompose_def)
      with ANDNode show ?thesis by (subst ao_loop.simps) (simp add: pop is_atomic_def fin)
    next
      case ORNode
      with False have "decompose TaskNode_validate_resources h (resource_pool g) ?r = Inr []"
        by (simp add: decompose_def)
      with ORNode show ?thesis by (subst ao_loop.simps) (simp add: pop is_atomic_def fin)
    qed
    with Inr show ?thesis by (simp add: generate_plan_unfold)
  qed
qed

text \<open>The search reads the pool and the ceiling of the \<^verbatim>\<open>PlanningGraph\<close>, not its cache.\<close>

lemma score_options_graph:
  "resource_pool g1 = resource_pool g2 \<Longrightarrow> risk_threshold g1 = risk_threshold g2 \<Longrightarrow>
   score_options h g1 cc opts heap best = score_options h g2 cc opts heap best"
  by (induction opts arbitrary: heap best)
     (auto simp: Let_def split: sum.splits error.splits)


lemma ao_loop_graph_Some:
  assumes "ao_loop vr h g1 heap best = Some y"
    and "resource_pool g1 = resource_pool g2" and "risk_threshold g1 = risk_threshold g2"
  shows "ao_loop vr h g2 heap best = Some y"
proof -
  have "ao_loop vr h g heap best = Some y \<Longrightarrow>
        resource_pool g = resource_pool g2 \<and> risk_threshold g = risk_threshold g2
          \<longrightarrow> ao_loop vr h g2 heap best = Some y" for g
  proof (induction rule: ao_loop.raw_induct [rotated, consumes 1])
    case (1 f vr h g heap best y)
    show ?case
    proof
      assume eq: "resource_pool g = resource_pool g2 \<and> risk_threshold g = risk_threshold g2"
      then have sc_eq: "score_options h g cc opts hp bp = score_options h g2 cc opts hp bp"
        for cc opts hp bp
        by (intro score_options_graph) simp_all
      show "ao_loop vr h g2 heap best = Some y"
      proof (cases "heap = []")
        case True
        with 1(2) show ?thesis by (subst ao_loop.simps) simp
      next
        case False
        show ?thesis
        proof (cases "heappop heap")
          case (Inl e')
          with 1(2) False show ?thesis by (subst ao_loop.simps) simp
        next
          case (Inr r)
          obtain current heap1 where r: "r = (current, heap1)" by (cases r)
          show ?thesis
          proof (cases "is_atomic (deref h (snd current))")
            case True
            with 1(2) False Inr r have "f vr h g heap1 best = Some y" by simp
            from 1(1) [OF this] eq have "ao_loop vr h g2 heap1 best = Some y" by simp
            with False Inr r True show ?thesis by (subst ao_loop.simps) simp
          next
            case na: False
            show ?thesis
            proof (cases "decompose vr h (resource_pool g) (snd current)")
              case (Inl e')
              with 1(2) False Inr r na have y: "y = Inl e'" by simp
              from Inl eq have "decompose vr h (resource_pool g2) (snd current) = Inl e'"
                by simp
              with False Inr r na y show ?thesis by (subst ao_loop.simps) simp
            next
              case ds: (Inr ds)
              from ds eq have ds2: "decompose vr h (resource_pool g2) (snd current) = Inr ds"
                by simp
              show ?thesis
              proof (cases "score_options h g (fst current) ds heap1 best")
                case (Inl e')
                with 1(2) False Inr r na ds have y: "y = Inl e'" by simp
                from Inl have "score_options h g2 (fst current) ds heap1 best = Inl e'"
                  by (simp add: sc_eq)
                with False Inr r na ds2 y show ?thesis by (subst ao_loop.simps) simp
              next
                case sc: (Inr q)
                obtain heap2 best2 where q: "q = (heap2, best2)" by (cases q)
                with 1(2) False Inr r na ds sc have "f vr h g heap2 best2 = Some y" by simp
                from 1(1) [OF this] eq have rec: "ao_loop vr h g2 heap2 best2 = Some y" by simp
                from sc q have "score_options h g2 (fst current) ds heap1 best = Inr (heap2, best2)"
                  by (simp add: sc_eq)
                with False Inr r na ds2 rec show ?thesis by (subst ao_loop.simps) simp
              qed
            qed
          qed
        qed
      qed
    qed
  qed
  with assms show ?thesis by blast
qed

lemma ao_loop_graph:
  assumes "resource_pool g1 = resource_pool g2" and "risk_threshold g1 = risk_threshold g2"
  shows "ao_loop vr h g1 heap best = ao_loop vr h g2 heap best"
proof (cases "ao_loop vr h g1 heap best")
  case None
  show ?thesis
  proof (cases "ao_loop vr h g2 heap best")
    case n2: None
    with None show ?thesis by simp
  next
    case (Some y)
    from ao_loop_graph_Some [OF Some assms(1) [symmetric] assms(2) [symmetric]] None
    show ?thesis by simp
  qed
next
  case (Some y)
  from ao_loop_graph_Some [OF Some assms] Some show ?thesis by simp
qed

text \<open>
  C8. A run of \<^verbatim>\<open>generate_plan\<close> reads the store, the pool and the ceiling and writes
  none of them, so a second run starts from the same tree and pool. Two
  \<^verbatim>\<open>PlanningGraph\<close> objects over the same root, with equal pools and equal ceilings,
  give the same outcome on the same store, whatever their caches hold: the same plan
  (sequence, resource usage, cost and risk factor), the same exception, or no return
  for both.
\<close>

theorem generate_plan_repeatable:
  "root g1 = root g2 \<Longrightarrow> resource_pool g1 = resource_pool g2 \<Longrightarrow>
   risk_threshold g1 = risk_threshold g2 \<Longrightarrow>
   generate_plan vr h g1 = generate_plan vr h g2"
proof -
  assume r: "root g1 = root g2" and p: "resource_pool g1 = resource_pool g2"
    and t: "risk_threshold g1 = risk_threshold g2"
  have "ao_loop vr h g1 [(0, root g1)] None = ao_loop vr h g2 [(0, root g2)] None"
    using ao_loop_graph [OF p t] r by simp
  with r show ?thesis
    by (cases "validate_dag h (root g2)") (simp_all add: generate_plan_unfold)
qed

text \<open>A fresh \<^verbatim>\<open>PlanningGraph\<close> and one with a filled cache, on the node \<^verbatim>\<open>pick\<close>.\<close>

theorem generate_plan_repeatable_witness:
  "root (init_graph 0 cpu_pool 0.7) = root warm_graph \<and>
   resource_pool (init_graph 0 cpu_pool 0.7) = resource_pool warm_graph \<and>
   risk_threshold (init_graph 0 cpu_pool 0.7) = risk_threshold warm_graph \<and>
   cache (init_graph 0 cpu_pool 0.7) ''pick'' = None \<and>
   cache warm_graph ''pick'' = Some choice_plan \<and>
   generate_plan (Some within_pool) choice (init_graph 0 cpu_pool 0.7)
     = generate_plan (Some within_pool) choice warm_graph"
proof -
  have 1: "root (init_graph 0 cpu_pool 0.7) = root warm_graph"
    and 2: "resource_pool (init_graph 0 cpu_pool 0.7) = resource_pool warm_graph"
    and 3: "risk_threshold (init_graph 0 cpu_pool 0.7) = risk_threshold warm_graph"
    by (simp_all add: warm_graph_def)
  have 4: "cache (init_graph 0 cpu_pool 0.7) ''pick'' = None"
    "cache warm_graph ''pick'' = Some choice_plan"
    by (simp_all add: warm_graph_def init_graph_def)
  from generate_plan_repeatable [OF 1 2 3] 1 2 3 4 show ?thesis by simp
qed

end
